theory Spec2Isabelle
  imports Complex_Main "HOL-Library.Word" "HOL-Library.Log_Nat"
begin

unbundle bit_operations_syntax

section \<open>Data model of the VBA decompressor (vba.go)\<close>

type_synonym byte = "8 word"
type_synonym uint16 = "16 word"
type_synonym uint = "64 word"

text \<open>\<open>const VBABuffSize = 4098\<close>: 4096 data bytes and 2 header bytes.\<close>

definition VBABuffSize :: nat where
  "VBABuffSize = 4098"

text \<open>
  \<open>type VBAWriter struct\<close>. The two buffers are Go slices, modelled as lists whose length
  is the slice's length and capacity (\<open>init\<close> makes both with \<open>VBABuffSize\<close> bytes, \<open>New\<close>
  leaves them nil, of length 0). The sizes and the marker cursor are Go \<open>int\<close>s that the
  code only ever sets to non-negative values, hence \<open>nat\<close>. The downstream writer \<open>wr\<close> is
  kept outside the record, as a function and a sink state passed along.
\<close>

record VBAWriter =
  compressedBuffer :: "byte list"
  uncompressedBuffer :: "byte list"
  cSize :: nat
  uSize :: nat
  marker_cur :: nat
  marker_found :: bool

text \<open>The errors the package creates with \<open>fmt.Errorf\<close>, and the error of the sink.\<close>

datatype error =
    ChunkSignatureMismatch
  | UncompressedChunkSizeError
  | ShortWrite
  | NegativeCopySize
  | SinkError

text \<open>
  A Go function either panics (index or slice bounds out of range) or returns. What it
  returns holds the \<open>error\<close> value (\<open>None\<close> for \<open>nil\<close>) beside the byte count, as in Go.
\<close>

datatype 'a outcome = Panic | Return 'a

text \<open>
  The \<open>io.Writer\<close> behind the decompressor: from the sink state and the bytes written it
  gives the new sink state, the count \<open>n\<close> it reports and whether it reports an error.
\<close>

type_synonym 'w writer = "'w \<Rightarrow> byte list \<Rightarrow> 'w \<times> int \<times> bool"

text \<open>\<open>NewWriter\<close>: zeroed buffers of \<open>VBABuffSize\<close> bytes, all counters zero.\<close>

definition NewWriter :: VBAWriter where
  "NewWriter = \<lparr> compressedBuffer = replicate VBABuffSize 0,
                 uncompressedBuffer = replicate VBABuffSize 0,
                 cSize = 0, uSize = 0, marker_cur = 0, marker_found = False \<rparr>"

section \<open>The chunk decoder\<close>

text \<open>\<open>binary.LittleEndian.Uint16\<close> on the two bytes \<open>b0\<close>, \<open>b1\<close>.\<close>

definition Uint16 :: "byte \<Rightarrow> byte \<Rightarrow> uint16" where
  "Uint16 b0 b1 = ucast b0 OR push_bit 8 (ucast b1)"

text \<open>
  \<open>copyTokenHelp\<close>. \<open>current\<close> and \<open>chunkStart\<close> are Go \<open>uint\<close>s (64 bits), their difference
  wraps. \<open>math.Ceil(math.Log2(float64(difference)))\<close> is the ceiling of the binary
  logarithm, \<open>ceillog2\<close>; for \<open>difference = 0\<close> Go computes \<open>-Inf\<close> and \<open>math.Max\<close> turns it
  into 4, as \<open>max (ceillog2 0) 4 = 4\<close> does. The floating-point computation is exact on the
  range the decoder uses (differences up to the buffer size): \<open>math.Log2\<close> is exact on powers
  of two and every other integer below \<open>2 ^ 13\<close> has a logarithm further than \<open>10\<^sup>-\<^sup>4\<close> from an
  integer. The result is (lengthMask, offsetMask, bitCount, maximumLength).
\<close>

definition copyTokenHelp :: "uint \<Rightarrow> uint \<Rightarrow> uint16 \<times> uint16 \<times> uint16 \<times> uint16" where
  "copyTokenHelp current chunkStart =
     (let difference = current - chunkStart;
          b = ceillog2 (unat difference);
          bitCount = (word_of_nat (max b 4) :: uint16);
          lengthMask = drop_bit (unat bitCount) (0xFFFF :: uint16);
          offsetMask = NOT lengthMask;
          maximumLength = drop_bit (unat bitCount) (0xFFFF :: uint16) + 3
      in (lengthMask, offsetMask, bitCount, maximumLength))"

text \<open>
  The copy loop of a copy token (lines 251-254):
  \<open>for index := copySource; index < copySource+length; index++\<close>, one byte at a time, each
  read and write bounds-checked by the Go runtime.
\<close>

function copyLoop :: "int \<Rightarrow> int \<Rightarrow> byte list \<Rightarrow> nat \<Rightarrow> (byte list \<times> nat) outcome" where
  "copyLoop index stop ubuf us =
     (if index < stop then
        (if index < 0 \<or> int (length ubuf) \<le> index \<or> length ubuf \<le> us then Panic
         else copyLoop (index + 1) stop (ubuf[us := ubuf ! nat index]) (us + 1))
      else Return (ubuf, us))"
  by pat_completeness auto
termination
  by (relation "measure (\<lambda>(index, stop, ubuf, us). nat (stop - index))") auto

declare copyLoop.simps [simp del]

text \<open>
  One copy token (lines 243-255), read at \<open>CompressedCurrent\<close>: the token is split by
  \<open>copyTokenHelp\<close> at the current \<open>uSize\<close>, then expanded by the copy loop. The result is
  the new uncompressed buffer and \<open>uSize\<close>; the caller advances \<open>CompressedCurrent\<close> by 2.
\<close>

definition tokenLength :: "uint16 \<Rightarrow> uint16 \<Rightarrow> nat" where
  "tokenLength copyToken lengthMask = unat ((copyToken AND lengthMask) + 3)"

definition tokenOffset :: "uint16 \<Rightarrow> uint16 \<Rightarrow> uint16 \<Rightarrow> nat" where
  "tokenOffset copyToken offsetMask bitCount =
     (let temp1 = copyToken AND offsetMask;
          temp2 = 16 - bitCount
      in unat (drop_bit (unat temp2) temp1 + 1))"

definition copyTokenStep ::
  "byte list \<Rightarrow> nat \<Rightarrow> nat \<Rightarrow> byte list \<Rightarrow> nat \<Rightarrow> (byte list \<times> nat) outcome" where
  "copyTokenStep cbuf chunkStart cur ubuf us =
     (if length cbuf < cur + 2 then Panic
      else
        (let copyToken = Uint16 (cbuf ! cur) (cbuf ! (cur + 1));
             (lengthMask, offsetMask, bitCount, maximumLength) =
               copyTokenHelp (word_of_nat us) (word_of_nat chunkStart);
             len = tokenLength copyToken lengthMask;
             offset = tokenOffset copyToken offsetMask bitCount;
             copySource = int us - int offset
         in copyLoop copySource (copySource + int len) ubuf us))"

text \<open>
  The inner loop over the eight flag bits of a token group (lines 235-258). The decoding
  state is (CompressedCurrent, uncompressedBuffer, uSize).
\<close>

type_synonym dstate = "nat \<times> byte list \<times> nat"

function itemLoop ::
  "byte list \<Rightarrow> nat \<Rightarrow> nat \<Rightarrow> byte \<Rightarrow> nat \<Rightarrow> dstate \<Rightarrow> dstate outcome" where
  "itemLoop cbuf CompressedEnd chunkStart flagByte bitIndex (cur, ubuf, us) =
     (if bitIndex < 8 then
        (if cur < CompressedEnd then
           (if drop_bit bitIndex flagByte AND 1 = 0 then
              (if length cbuf \<le> cur \<or> length ubuf \<le> us then Panic
               else itemLoop cbuf CompressedEnd chunkStart flagByte (bitIndex + 1)
                      (cur + 1, ubuf[us := cbuf ! cur], us + 1))
            else
              (case copyTokenStep cbuf chunkStart cur ubuf us of
                 Panic \<Rightarrow> Panic
               | Return (ubuf', us') \<Rightarrow>
                   itemLoop cbuf CompressedEnd chunkStart flagByte (bitIndex + 1)
                     (cur + 2, ubuf', us')))
         else itemLoop cbuf CompressedEnd chunkStart flagByte (bitIndex + 1) (cur, ubuf, us))
      else Return (cur, ubuf, us))"
  by pat_completeness auto
termination
  by (relation "measure (\<lambda>(cbuf, CompressedEnd, chunkStart, flagByte, bitIndex, s). 8 - bitIndex)")
     auto

declare itemLoop.simps [simp del]

lemma itemLoop_cur_mono:
  "itemLoop cbuf cend cs fb bi s = Return s' \<Longrightarrow> fst s \<le> fst s'"
proof (induction cbuf cend cs fb bi s arbitrary: s' rule: itemLoop.induct)
  case (1 cbuf cend cs fb bi cur ubuf us)
  note eq = "1.prems" [unfolded itemLoop.simps [of cbuf cend cs fb bi cur ubuf us]]
  show ?case
  proof (cases "bi < 8")
    case False
    with eq show ?thesis by auto
  next
    case bi: True
    show ?thesis
    proof (cases "cur < cend")
      case False
      with bi eq "1.IH"(3) [of s'] show ?thesis by simp
    next
      case cur: True
      show ?thesis
      proof (cases "drop_bit bi fb AND 1 = 0")
        case True
        with bi cur eq "1.IH"(1) [of s'] show ?thesis
          by (auto split: if_splits)
      next
        case False
        with bi cur eq obtain ubuf' us' where
          st: "copyTokenStep cbuf cs cur ubuf us = Return (ubuf', us')"
          and r: "itemLoop cbuf cend cs fb (bi + 1) (cur + 2, ubuf', us') = Return s'"
          by (auto split: outcome.splits)
        from "1.IH"(2) [OF bi cur False st refl r] show ?thesis by simp
      qed
    qed
  qed
qed

text \<open>The outer loop over the token groups of a compressed chunk (lines 231-259).\<close>

function chunkLoop :: "byte list \<Rightarrow> nat \<Rightarrow> nat \<Rightarrow> dstate \<Rightarrow> dstate outcome" where
  "chunkLoop cbuf CompressedEnd chunkStart (cur, ubuf, us) =
     (if cur < CompressedEnd then
        (if length cbuf \<le> cur then Panic
         else
           (case itemLoop cbuf CompressedEnd chunkStart (cbuf ! cur) 0 (cur + 1, ubuf, us) of
              Panic \<Rightarrow> Panic
            | Return s' \<Rightarrow> chunkLoop cbuf CompressedEnd chunkStart s'))
      else Return (cur, ubuf, us))"
  by pat_completeness auto
termination
proof (relation "measure (\<lambda>(cbuf, CompressedEnd, chunkStart, s). CompressedEnd - fst s)")
  show "wf (measure (\<lambda>(cbuf, CompressedEnd, chunkStart, s). CompressedEnd - fst s))"
    by simp
next
  fix cbuf :: "byte list" and CompressedEnd chunkStart cur :: nat
    and ubuf :: "byte list" and us :: nat and s' :: dstate
  assume "cur < CompressedEnd"
    and "itemLoop cbuf CompressedEnd chunkStart (cbuf ! cur) 0 (cur + 1, ubuf, us) = Return s'"
  then show "((cbuf, CompressedEnd, chunkStart, s'), (cbuf, CompressedEnd, chunkStart, cur, ubuf, us))
      \<in> measure (\<lambda>(cbuf, CompressedEnd, chunkStart, s). CompressedEnd - fst s)"
    using itemLoop_cur_mono [of cbuf CompressedEnd chunkStart "cbuf ! cur" 0 "(cur + 1, ubuf, us)" s']
    by simp
qed

declare chunkLoop.simps [simp del]

text \<open>
  \<open>copy(dst[lo:hi], src)\<close> on a buffer: Go copies \<open>min (hi - lo) (len src)\<close> bytes, as
  \<open>memmove\<close> does for overlapping ranges. The caller checks \<open>lo \<le> hi \<le> cap\<close> (Go panics
  on the slice expression otherwise).
\<close>

definition go_copy :: "byte list \<Rightarrow> nat \<Rightarrow> nat \<Rightarrow> byte list \<Rightarrow> byte list" where
  "go_copy buf lo hi src =
     (let n = min (hi - lo) (length src) in take lo buf @ take n src @ drop (lo + n) buf)"

text \<open>
  \<open>uncompressChunk\<close> (lines 200-263). It returns the compressed bytes processed, the
  error, and the writer with its uncompressed buffer and \<open>uSize\<close> updated.
\<close>

definition uncompressChunk :: "VBAWriter \<Rightarrow> (nat \<times> error option \<times> VBAWriter) outcome" where
  "uncompressChunk vba =
     (let cbuf = compressedBuffer vba in
      if length cbuf < 2 then Panic
      else
        (let CompressedHeader = Uint16 (cbuf ! 0) (cbuf ! 1);
             vba0 = vba\<lparr>uSize := 0\<rparr>;
             CompressedChunkFlag = drop_bit 15 CompressedHeader AND 1;
             CompressedChunkSignature = drop_bit 12 CompressedHeader AND 7;
             CompressedChunkSize = (CompressedHeader AND 0x0FFF) + 3
         in
         if CompressedChunkSignature \<noteq> 3 then Return (0, Some ChunkSignatureMismatch, vba0)
         else
           (let CompressedEnd = unat CompressedChunkSize;
                CompressedCurrent = 2
            in
            if CompressedEnd > cSize vba0 then Return (0, None, vba0)
            else if CompressedChunkFlag = 0 then
              (if CompressedChunkSize \<noteq> 4098 then
                 Return (0, Some UncompressedChunkSizeError, vba0)
               else if length (uncompressedBuffer vba0) < uSize vba0 + 4096
                       \<or> length cbuf < CompressedCurrent + 4096 then Panic
               else
                 Return (CompressedCurrent + 4096, None,
                   vba0\<lparr>uncompressedBuffer :=
                          go_copy (uncompressedBuffer vba0) (uSize vba0) (uSize vba0 + 4096)
                            (take 4096 (drop CompressedCurrent cbuf)),
                        uSize := uSize vba0 + 4096\<rparr>))
            else
              (let decompressedChunkStart = uSize vba0 in
               case chunkLoop cbuf CompressedEnd decompressedChunkStart
                      (CompressedCurrent, uncompressedBuffer vba0, uSize vba0) of
                 Panic \<Rightarrow> Panic
               | Return (cur, ubuf, us) \<Rightarrow>
                   Return (cur, None, vba0\<lparr>uncompressedBuffer := ubuf, uSize := us\<rparr>)))))"

section \<open>The streaming assembler\<close>

text \<open>
  The flush of the decoded chunk to the underlying writer (lines 89-100): nothing is
  written when \<open>uSize = 0\<close>; an error of the writer or a short count ends \<open>uncompress\<close>.
\<close>

definition flushChunk ::
  "'w writer \<Rightarrow> VBAWriter \<Rightarrow> 'w \<Rightarrow> (error option \<times> VBAWriter \<times> 'w) outcome" where
  "flushChunk wr vba sink =
     (if uSize vba \<noteq> 0 then
        (if length (uncompressedBuffer vba) < uSize vba then Panic
         else
           (case wr sink (take (uSize vba) (uncompressedBuffer vba)) of
              (sink', n, err) \<Rightarrow>
                if err then Return (Some SinkError, vba, sink')
                else if n \<noteq> int (uSize vba) then Return (Some ShortWrite, vba, sink')
                else Return (None, vba\<lparr>uSize := 0\<rparr>, sink')))
      else Return (None, vba, sink))"

text \<open>
  The shift of the remaining compressed bytes to the front of the buffer (lines 101-109),
  for \<open>copySize = cSize - processed \<ge> 0\<close>.
\<close>

definition shiftRemaining :: "VBAWriter \<Rightarrow> nat \<Rightarrow> VBAWriter outcome" where
  "shiftRemaining vba processed =
     (let copySize = cSize vba - processed in
      if copySize > 0 then
        (if length (compressedBuffer vba) < cSize vba then Panic
         else Return (vba\<lparr>compressedBuffer :=
                go_copy (compressedBuffer vba) 0 copySize
                  (take (cSize vba - processed) (drop processed (compressedBuffer vba))),
                cSize := copySize\<rparr>))
      else Return (vba\<lparr>cSize := copySize\<rparr>))"

lemma uncompressChunk_cSize:
  "uncompressChunk vba = Return (processed, err, vba') \<Longrightarrow> cSize vba' = cSize vba"
  by (auto simp: uncompressChunk_def Let_def split: if_splits outcome.splits)

lemma flushChunk_cSize:
  "flushChunk wr vba sink = Return (err, vba', sink') \<Longrightarrow> cSize vba' = cSize vba"
  by (auto simp: flushChunk_def split: if_splits prod.splits)

text \<open>
  \<open>uncompress\<close> (lines 77-114): the loop \<open>for vba.cSize > 0\<close>, with the running \<open>total\<close>
  as the argument \<open>tot\<close>. It returns the total, the error, the writer and the sink.
\<close>

function uncompress ::
  "'w writer \<Rightarrow> nat \<Rightarrow> VBAWriter \<Rightarrow> 'w \<Rightarrow> (nat \<times> error option \<times> VBAWriter \<times> 'w) outcome" where
  "uncompress wr tot vba sink =
     (if cSize vba > 0 then
        (case uncompressChunk vba of
           Panic \<Rightarrow> Panic
         | Return (processed, Some err, vba1) \<Rightarrow> Return (tot + processed, Some err, vba1, sink)
         | Return (processed, None, vba1) \<Rightarrow>
             if processed = 0 then Return (tot, None, vba1, sink)
             else
               (case flushChunk wr vba1 sink of
                  Panic \<Rightarrow> Panic
                | Return (Some err, vba2, sink') \<Rightarrow>
                    Return (tot + processed, Some err, vba2, sink')
                | Return (None, vba2, sink') \<Rightarrow>
                    if cSize vba2 < processed then
                      Return (tot + processed, Some NegativeCopySize, vba2, sink')
                    else
                      (case shiftRemaining vba2 processed of
                         Panic \<Rightarrow> Panic
                       | Return vba3 \<Rightarrow> uncompress wr (tot + processed) vba3 sink')))
      else Return (tot, None, vba, sink))"
  by pat_completeness auto
termination
proof (relation "measure (\<lambda>(wr, tot, vba, sink). cSize vba)")
  show "wf (measure (\<lambda>(wr, tot, vba, sink). cSize vba))"
    by simp
next
  fix wr :: "'w writer" and tot :: nat and vba :: VBAWriter and sink :: 'w
    and r1 processed r2 err1 vba1 r3 err2 r4 vba2 sink' vba3
  assume "0 < cSize vba" "uncompressChunk vba = Return r1" "(processed, r2) = r1"
    "(err1, vba1) = r2" "processed \<noteq> 0" "flushChunk wr vba1 sink = Return r3"
    "(err2, r4) = r3" "(vba2, sink') = r4"
    "\<not> cSize vba2 < processed" "shiftRemaining vba2 processed = Return vba3"
  then show "((wr, tot + processed, vba3, sink'), (wr, tot, vba, sink))
      \<in> measure (\<lambda>(wr, tot, vba, sink). cSize vba)"
    by (auto simp: shiftRemaining_def Let_def split: if_splits
          dest!: uncompressChunk_cSize flushChunk_cSize)
qed

declare uncompress.simps [simp del]

text \<open>Facts about the sizes, needed for the termination of the loop of \<open>Write\<close>.\<close>

lemma and_fff_le: "unat ((h::uint16) AND 0x0FFF) \<le> 4095"
proof -
  have "h AND 0x0FFF \<le> 0x0FFF" by (rule word_and_le1)
  then show ?thesis by (simp add: word_le_nat_alt)
qed

lemma chunkSize_unat: "unat (((h::uint16) AND 0x0FFF) + 3) = unat (h AND 0x0FFF) + 3"
  using and_fff_le [of h] by (simp add: unat_word_ariths)

lemma chunkLoop_cur_mono:
  "chunkLoop cbuf cend cs s = Return s' \<Longrightarrow> fst s \<le> fst s'"
proof (induction cbuf cend cs s arbitrary: s' rule: chunkLoop.induct)
  case (1 cbuf cend cs cur ubuf us)
  note eq = "1.prems" [unfolded chunkLoop.simps [of cbuf cend cs cur ubuf us]]
  show ?case
  proof (cases "cur < cend")
    case False
    with eq show ?thesis by auto
  next
    case True
    with eq obtain s1 where
      i: "itemLoop cbuf cend cs (cbuf ! cur) 0 (cur + 1, ubuf, us) = Return s1"
      and r: "chunkLoop cbuf cend cs s1 = Return s'" and nb: "\<not> length cbuf \<le> cur"
      by (auto split: if_splits outcome.splits)
    from itemLoop_cur_mono [OF i] "1.IH" [OF True nb i r] show ?thesis by simp
  qed
qed

lemma uncompressChunk_zero:
  assumes "uncompressChunk vba = Return (0, None, vba')"
  shows "cSize vba < VBABuffSize"
  using assms chunkSize_unat [of "Uint16 (compressedBuffer vba ! 0) (compressedBuffer vba ! 1)"]
   and_fff_le [of "Uint16 (compressedBuffer vba ! 0) (compressedBuffer vba ! 1)"]
  apply (auto simp: uncompressChunk_def Let_def VBABuffSize_def split: if_splits outcome.splits dest!: chunkLoop_cur_mono)
  done

lemma shiftRemaining_cSize:
  "shiftRemaining vba p = Return vba' \<Longrightarrow> cSize vba' = cSize vba - p"
  by (auto simp: shiftRemaining_def Let_def split: if_splits)

lemma uncompress_cSize_le:
  "uncompress wr tot vba sink = Return (t, e, vba', sink') \<Longrightarrow> cSize vba' \<le> cSize vba"
proof (induction wr tot vba sink rule: uncompress.induct)
  case (1 wr tot vba sink)
  note eq = "1.prems" [unfolded uncompress.simps [of wr tot vba sink]]
  show ?case
  proof (cases "0 < cSize vba")
    case False
    with eq show ?thesis by simp
  next
    case pos: True
    with eq obtain p e1 vba1 where c: "uncompressChunk vba = Return (p, e1, vba1)"
      by (auto split: outcome.splits)
    note c1 = uncompressChunk_cSize [OF c]
    show ?thesis
    proof (cases e1)
      case (Some err)
      with eq pos c c1 show ?thesis by auto
    next
      case None
      show ?thesis
      proof (cases "p = 0")
        case True
        with eq pos c c1 None show ?thesis by auto
      next
        case pnz: False
        with eq pos c None obtain e2 vba2 sink2 where
          f: "flushChunk wr vba1 sink = Return (e2, vba2, sink2)"
          by (auto split: outcome.splits)
        note f1 = flushChunk_cSize [OF f]
        show ?thesis
        proof (cases e2)
          case (Some err)
          with eq pos c None pnz f f1 c1 show ?thesis by auto
        next
          case e2: None
          show ?thesis
          proof (cases "cSize vba2 < p")
            case True
            with eq pos c None pnz f f1 c1 e2 show ?thesis by auto
          next
            case False
            with eq pos c None pnz f e2 obtain vba3 where
              s: "shiftRemaining vba2 p = Return vba3"
              and r: "uncompress wr (tot + p) vba3 sink2 = Return (t, e, vba', sink')"
              by (auto split: outcome.splits)
            from "1.IH" [OF pos c refl refl None pnz f refl e2 refl False s r]
              shiftRemaining_cSize [OF s] f1 c1
            show ?thesis by simp
          qed
        qed
      qed
    qed
  qed
qed

lemma uncompress_full_progress:
  assumes u: "uncompress wr tot vba sink = Return (t, None, vba', sink')"
    and full: "VBABuffSize \<le> cSize vba"
  shows "cSize vba' < cSize vba"
proof -
  from full have pos: "0 < cSize vba" by (simp add: VBABuffSize_def)
  note eq = u [unfolded uncompress.simps [of wr tot vba sink]]
  from eq pos obtain p e1 vba1 where c: "uncompressChunk vba = Return (p, e1, vba1)"
    by (auto split: outcome.splits)
  from eq pos c have e1: "e1 = None" by (cases e1) auto
  have pnz: "p \<noteq> 0"
  proof
    assume "p = 0"
    with c e1 uncompressChunk_zero [of vba vba1] full show False by simp
  qed
  from eq pos c e1 pnz obtain e2 vba2 sink2 where
    f: "flushChunk wr vba1 sink = Return (e2, vba2, sink2)"
    by (auto split: outcome.splits)
  from eq pos c e1 pnz f have e2: "e2 = None" by (cases e2) auto
  from eq pos c e1 pnz f e2 have le: "\<not> cSize vba2 < p" by (auto split: if_splits)
  with eq pos c e1 pnz f e2 obtain vba3 where
    s: "shiftRemaining vba2 p = Return vba3"
    and r: "uncompress wr (tot + p) vba3 sink2 = Return (t, None, vba', sink')"
    by (auto split: outcome.splits)
  from uncompress_cSize_le [OF r] shiftRemaining_cSize [OF s]
    flushChunk_cSize [OF f] uncompressChunk_cSize [OF c] pnz le
  show ?thesis by simp
qed

section \<open>The signature carver\<close>

text \<open>
  The marker of \<open>carvVBA\<close>: the byte 1, two dots, the byte 0 and the text Attribut; and
  its length \<open>mlen\<close>.
\<close>

definition marker :: "byte list" where
  "marker = [0x01, 0x2E, 0x2E, 0x00, 0x41, 0x74, 0x74, 0x72, 0x69, 0x62, 0x75, 0x74]"

definition mlen :: nat where
  "mlen = length marker"

text \<open>
  The body of the loop of \<open>carvVBA\<close> (lines 159-176) for one input byte \<open>b\<close>, up to the
  test for the end of the marker.
\<close>

definition carvStep :: "VBAWriter \<Rightarrow> byte \<Rightarrow> VBAWriter outcome" where
  "carvStep vba b =
     (if marker_cur vba = 1 \<or> marker_cur vba = 2 then
        (if length (compressedBuffer vba) \<le> cSize vba then Panic
         else Return (vba\<lparr>compressedBuffer := (compressedBuffer vba)[cSize vba := b],
                          marker_cur := marker_cur vba + 1,
                          cSize := cSize vba + 1\<rparr>))
      else if length marker \<le> marker_cur vba then Panic
      else if b = marker ! marker_cur vba then
        (if length (compressedBuffer vba) \<le> cSize vba then Panic
         else
           (let vba1 = vba\<lparr>compressedBuffer := (compressedBuffer vba)[cSize vba := b],
                            marker_cur := marker_cur vba + 1\<rparr>
            in if marker_cur vba1 \<noteq> 1 then Return (vba1\<lparr>cSize := cSize vba1 + 1\<rparr>)
               else Return vba1))
      else Return (vba\<lparr>marker_cur := 0, cSize := 0\<rparr>))"

text \<open>
  \<open>carvVBA\<close> (lines 153-186): the loop \<open>for i, b := range buff\<close>, with the index \<open>i\<close> as
  an argument. It returns (offset, found) and the writer.
\<close>

fun carvLoop :: "nat \<Rightarrow> byte list \<Rightarrow> VBAWriter \<Rightarrow> (nat \<times> bool \<times> VBAWriter) outcome" where
  "carvLoop i [] vba = Return (0, False, vba)"
| "carvLoop i (b # buff) vba =
     (case carvStep vba b of
        Panic \<Rightarrow> Panic
      | Return vba1 \<Rightarrow>
          if marker_cur vba1 = mlen then Return (i + 1, True, vba1\<lparr>marker_found := True\<rparr>)
          else carvLoop (i + 1) buff vba1)"

definition carvVBA :: "VBAWriter \<Rightarrow> byte list \<Rightarrow> (nat \<times> bool \<times> VBAWriter) outcome" where
  "carvVBA vba buff = carvLoop 0 buff vba"

section \<open>Write\<close>

text \<open>
  The copy of input bytes into the compressed buffer (lines 130-138): as many as fit when
  the input is longer than the free space, and the whole rest of the input otherwise. It
  returns the new \<open>offset\<close> and the writer.
\<close>

definition fillBuffer :: "byte list \<Rightarrow> nat \<Rightarrow> VBAWriter \<Rightarrow> (nat \<times> VBAWriter) outcome" where
  "fillBuffer b offset vba =
     (let buffAvail = int (length b) - int offset;
          vbaAvail = int VBABuffSize - int (cSize vba);
          cbuf = compressedBuffer vba
      in
      if vbaAvail < buffAvail then
        (if vbaAvail < 0 \<or> length cbuf < cSize vba then Panic
         else Return (offset + nat vbaAvail,
                vba\<lparr>compressedBuffer :=
                      go_copy cbuf (cSize vba) (length cbuf) (take (nat vbaAvail) (drop offset b)),
                    cSize := cSize vba + nat vbaAvail\<rparr>))
      else
        (if length cbuf < cSize vba + nat buffAvail then Panic
         else Return (offset + nat buffAvail,
                vba\<lparr>compressedBuffer :=
                      go_copy cbuf (cSize vba) (cSize vba + nat buffAvail) (drop offset b),
                    cSize := cSize vba + nat buffAvail\<rparr>)))"

lemma fillBuffer_progress:
  assumes "fillBuffer b offset vba = Return (offset', vba1)" "offset < length b"
  shows "offset' \<le> length b \<and> offset \<le> offset' \<and> cSize vba1 = cSize vba + (offset' - offset)
         \<and> (offset' = offset \<longrightarrow> VBABuffSize \<le> cSize vba1)"
  using assms by (auto simp: fillBuffer_def Let_def split: if_splits)

text \<open>
  The loop \<open>for buffAvail > 0\<close> of \<open>Write\<close> (lines 126-148). \<open>buffAvail\<close> and \<open>vbaAvail\<close>
  are recomputed from \<open>offset\<close> and \<open>cSize\<close> at the head of each iteration, as the source
  does at the end of the previous one. \<open>total\<close> stays 0 in the source.
\<close>

function WriteLoop ::
  "'w writer \<Rightarrow> byte list \<Rightarrow> nat \<Rightarrow> VBAWriter \<Rightarrow> 'w
     \<Rightarrow> (nat \<times> error option \<times> VBAWriter \<times> 'w) outcome" where
  "WriteLoop wr b offset vba sink =
     (if int (length b) - int offset > 0 then
        (case fillBuffer b offset vba of
           Panic \<Rightarrow> Panic
         | Return (offset', vba1) \<Rightarrow>
             (case uncompress wr 0 vba1 sink of
                Panic \<Rightarrow> Panic
              | Return (processed, Some err, vba2, sink') \<Rightarrow>
                  Return (0 + processed, Some err, vba2, sink')
              | Return (processed, None, vba2, sink') \<Rightarrow>
                  WriteLoop wr b offset' vba2 sink'))
      else Return (length b, None, vba, sink))"
  by pat_completeness auto
termination
proof (relation "measures [\<lambda>(wr, b, offset, vba, sink). length b - offset,
                           \<lambda>(wr, b, offset, vba, sink). cSize vba]")
  show "wf (measures [\<lambda>(wr :: 'w writer, b :: byte list, offset :: nat, vba :: VBAWriter, sink :: 'w). length b - offset,
                           \<lambda>(wr, b, offset, vba, sink). cSize vba])"
    by simp
next
  fix wr :: "'w writer" and b :: "byte list" and offset :: nat and vba :: VBAWriter
    and sink :: 'w and r1 offset' vba1 r2 processed r3 err r4 vba2 sink'
  assume pos: "0 < int (length b) - int offset"
    and f: "fillBuffer b offset vba = Return r1" and r1: "(offset', vba1) = r1"
    and u: "uncompress wr 0 vba1 sink = Return r2" and r2: "(processed, r3) = r2"
      "(err, r4) = r3" "err = None" "(vba2, sink') = r4"
  from f r1 pos fillBuffer_progress [of b offset vba offset' vba1]
  have p: "offset' \<le> length b" "offset \<le> offset'"
    "offset' = offset \<longrightarrow> VBABuffSize \<le> cSize vba1"
    "cSize vba1 = cSize vba + (offset' - offset)"
    by auto
  from u r2 have u': "uncompress wr 0 vba1 sink = Return (processed, None, vba2, sink')"
    by auto
  show "((wr, b, offset', vba2, sink'), (wr, b, offset, vba, sink))
      \<in> measures [\<lambda>(wr, b, offset, vba, sink). length b - offset,
                   \<lambda>(wr, b, offset, vba, sink). cSize vba]"
  proof (cases "offset' = offset")
    case True
    with p uncompress_full_progress [OF u'] show ?thesis by simp
  next
    case False
    from pos have "offset < length b" by simp
    with False p show ?thesis by auto
  qed
qed

declare WriteLoop.simps [simp del]

text \<open>\<open>Write\<close> (lines 116-149).\<close>

definition Write ::
  "'w writer \<Rightarrow> VBAWriter \<Rightarrow> 'w \<Rightarrow> byte list
     \<Rightarrow> (nat \<times> error option \<times> VBAWriter \<times> 'w) outcome" where
  "Write wr vba sink b =
     (if \<not> marker_found vba then
        (case carvVBA vba b of
           Panic \<Rightarrow> Panic
         | Return (offset, hasVBA, vba1) \<Rightarrow>
             if \<not> hasVBA then Return (length b, None, vba1, sink)
             else WriteLoop wr b offset vba1 sink)
      else WriteLoop wr b 0 vba sink)"

text \<open>
  A reliable sink: it accepts every write in full and records the writes in order.
\<close>

definition appendSink :: "byte list list writer" where
  "appendSink sink bs = (sink @ [bs], int (length bs), False)"

section \<open>Signature check\<close>

lemma go_copy_length [simp]:
  "hi \<le> length buf \<Longrightarrow> length (go_copy buf lo hi src) = length buf"
  by (auto simp: go_copy_def Let_def min_def)

lemma go_copy_nth_below:
  "i < lo \<Longrightarrow> lo \<le> length buf \<Longrightarrow> go_copy buf lo hi src ! i = buf ! i"
  by (simp add: go_copy_def Let_def nth_append)

text \<open>The signature bits (12 to 14) of the header at the front of the compressed buffer.\<close>

definition chunkSignature :: "VBAWriter \<Rightarrow> uint16" where
  "chunkSignature vba =
     drop_bit 12 (Uint16 (compressedBuffer vba ! 0) (compressedBuffer vba ! 1)) AND 7"

lemma uncompressChunk_bad_signature:
  assumes "2 \<le> length (compressedBuffer vba)" "chunkSignature vba \<noteq> 3"
  shows "uncompressChunk vba = Return (0, Some ChunkSignatureMismatch, vba\<lparr>uSize := 0\<rparr>)"
  using assms by (simp add: uncompressChunk_def chunkSignature_def Let_def)

lemma uncompress_bad_signature:
  assumes "2 \<le> length (compressedBuffer vba)" "chunkSignature vba \<noteq> 3" "0 < cSize vba"
  shows "uncompress wr tot vba sink
           = Return (tot, Some ChunkSignatureMismatch, vba\<lparr>uSize := 0\<rparr>, sink)"
  using assms uncompressChunk_bad_signature [OF assms(1,2)]
  by (simp add: uncompress.simps [of wr tot vba sink])

lemma fillBuffer_header:
  assumes f: "fillBuffer b offset vba = Return (offset', vba1)"
    and c: "2 \<le> cSize vba"
  shows "compressedBuffer vba1 ! 0 = compressedBuffer vba ! 0"
    "compressedBuffer vba1 ! 1 = compressedBuffer vba ! 1"
    "length (compressedBuffer vba1) = length (compressedBuffer vba)"
    "cSize vba \<le> cSize vba1" "marker_found vba1 = marker_found vba"
  using assms by (auto simp: fillBuffer_def Let_def go_copy_nth_below split: if_splits)

lemma fillBuffer_Return:
  assumes "length (compressedBuffer vba) = VBABuffSize" "cSize vba \<le> VBABuffSize"
    "offset < length b"
  shows "\<exists>offset' vba1. fillBuffer b offset vba = Return (offset', vba1)"
  using assms by (auto simp: fillBuffer_def Let_def)

lemma Write_bad_signature:
  assumes len: "length (compressedBuffer vba) = VBABuffSize"
    and sig: "chunkSignature vba \<noteq> 3"
    and found: "marker_found vba" and c: "2 \<le> cSize vba" "cSize vba \<le> VBABuffSize"
    and b: "b \<noteq> []"
  shows "\<exists>vba'. Write wr vba sink b = Return (0, Some ChunkSignatureMismatch, vba', sink)
           \<and> length (compressedBuffer vba') = VBABuffSize \<and> chunkSignature vba' \<noteq> 3
           \<and> marker_found vba' \<and> 2 \<le> cSize vba'"
proof -
  from b have pos: "0 < length b" by simp
  from fillBuffer_Return [OF len c(2) pos] obtain offset' vba1 where
    f: "fillBuffer b 0 vba = Return (offset', vba1)" by blast
  note h = fillBuffer_header [OF f c(1)]
  from h sig have sig1: "chunkSignature vba1 \<noteq> 3" by (simp add: chunkSignature_def)
  from h len have len1: "2 \<le> length (compressedBuffer vba1)" by (simp add: VBABuffSize_def)
  from h c have pos1: "0 < cSize vba1" by simp
  have "Write wr vba sink b
          = Return (0, Some ChunkSignatureMismatch, vba1\<lparr>uSize := 0\<rparr>, sink)"
    using found pos f uncompress_bad_signature [OF len1 sig1 pos1, of wr 0 sink]
    by (simp add: Write_def WriteLoop.simps [of wr b 0 vba sink])
  moreover have "length (compressedBuffer (vba1\<lparr>uSize := 0\<rparr>)) = VBABuffSize"
    "chunkSignature (vba1\<lparr>uSize := 0\<rparr>) \<noteq> 3" "marker_found (vba1\<lparr>uSize := 0\<rparr>)"
    "2 \<le> cSize (vba1\<lparr>uSize := 0\<rparr>)"
    using h len sig1 found c by (simp_all add: chunkSignature_def)
  ultimately show ?thesis by blast
qed

text \<open>
  Claim C9. A chunk whose header signature bits are not \<open>0b011\<close> makes \<open>uncompressChunk\<close>
  return the error "Chunk signature missmatch" with nothing processed; \<open>uncompress\<close> returns
  it at once, with its running total and without writing to the sink; and \<open>Write\<close> returns
  it to the caller. The header stays at the front of the buffer, so every later \<open>Write\<close> of
  the session fails in the same way and no further chunk is decoded or written.
\<close>

theorem C9_signature_mismatch_is_fatal:
  assumes "length (compressedBuffer vba) = VBABuffSize" and "chunkSignature vba \<noteq> 3"
  shows "uncompressChunk vba = Return (0, Some ChunkSignatureMismatch, vba\<lparr>uSize := 0\<rparr>)
    \<and> (0 < cSize vba \<longrightarrow>
         uncompress wr tot vba sink
           = Return (tot, Some ChunkSignatureMismatch, vba\<lparr>uSize := 0\<rparr>, sink))
    \<and> (marker_found vba \<and> 2 \<le> cSize vba \<and> cSize vba \<le> VBABuffSize \<and> b \<noteq> [] \<longrightarrow>
         (\<exists>vba'. Write wr vba sink b = Return (0, Some ChunkSignatureMismatch, vba', sink)
            \<and> length (compressedBuffer vba') = VBABuffSize \<and> chunkSignature vba' \<noteq> 3
            \<and> marker_found vba' \<and> 2 \<le> cSize vba'))"
proof -
  from assms(1) have len2: "2 \<le> length (compressedBuffer vba)"
    by (simp add: VBABuffSize_def)
  show ?thesis
    using uncompressChunk_bad_signature [OF len2 assms(2)]
      uncompress_bad_signature [OF len2 assms(2), of wr tot sink]
      Write_bad_signature [OF assms, of b wr sink]
    by blast
qed

theorem C9_signature_mismatch_is_fatal_witness:
  "length (compressedBuffer (NewWriter\<lparr>cSize := 2, marker_found := True\<rparr>)) = VBABuffSize
   \<and> chunkSignature (NewWriter\<lparr>cSize := 2, marker_found := True\<rparr>) \<noteq> 3
   \<and> uncompressChunk (NewWriter\<lparr>cSize := 2, marker_found := True\<rparr>)
       = Return (0, Some ChunkSignatureMismatch,
           NewWriter\<lparr>cSize := 2, marker_found := True, uSize := 0\<rparr>)
   \<and> uncompress appendSink 0 (NewWriter\<lparr>cSize := 2, marker_found := True\<rparr>) []
       = Return (0, Some ChunkSignatureMismatch,
           NewWriter\<lparr>cSize := 2, marker_found := True, uSize := 0\<rparr>, [])
   \<and> (\<exists>vba'. Write appendSink (NewWriter\<lparr>cSize := 2, marker_found := True\<rparr>) [] [0x41]
              = Return (0, Some ChunkSignatureMismatch, vba', [])
          \<and> length (compressedBuffer vba') = VBABuffSize \<and> chunkSignature vba' \<noteq> 3
          \<and> marker_found vba' \<and> 2 \<le> cSize vba')"
proof -
  have h1: "length (compressedBuffer (NewWriter\<lparr>cSize := 2, marker_found := True\<rparr>)) = VBABuffSize"
    by (simp add: NewWriter_def)
  have h2: "chunkSignature (NewWriter\<lparr>cSize := 2, marker_found := True\<rparr>) \<noteq> 3"
    by (simp add: NewWriter_def chunkSignature_def Uint16_def VBABuffSize_def)
  have h3: "marker_found (NewWriter\<lparr>cSize := 2, marker_found := True\<rparr>)"
    "cSize (NewWriter\<lparr>cSize := 2, marker_found := True\<rparr>) = 2"
    by simp_all
  show ?thesis
    using h1 h2 h3
      C9_signature_mismatch_is_fatal [OF h1 h2, of appendSink 0 "[]" "[0x41]"]
    by (simp add: VBABuffSize_def)
qed

section \<open>The split of a copy token\<close>

lemma lengthMask_eq: "n \<le> 16 \<Longrightarrow> drop_bit n (0xFFFF :: uint16) = mask (16 - n)"
proof -
  assume n: "n \<le> 16"
  have "(0xFFFF :: uint16) = mask 16" by (simp add: mask_eq_exp_minus_1)
  then have "drop_bit n (0xFFFF :: uint16) = drop_bit n (mask 16)" by simp
  also have "\<dots> = mask (16 - n)"
    by (rule bit_word_eqI) (auto simp: bit_simps)
  finally show ?thesis .
qed

lemma unat_and_mask16: "unat ((t :: uint16) AND mask k) = unat t mod 2 ^ k"
proof -
  have "unat (t AND mask k) = unat (take_bit k t)"
    by (simp only: take_bit_eq_mask)
  also have "\<dots> = take_bit k (unat t)"
    by (rule unsigned_take_bit_eq)
  also have "\<dots> = unat t mod 2 ^ k"
    by (rule take_bit_eq_mod)
  finally show ?thesis .
qed

lemma drop_bit_and_not_mask: "drop_bit k ((t :: uint16) AND NOT (mask k)) = drop_bit k t"
  by (rule bit_word_eqI) (auto simp: bit_simps dest: bit_imp_le_length)

lemma unat_drop_bit16: "unat (drop_bit k (t :: uint16)) = unat t div 2 ^ k"
proof -
  have "unat (drop_bit k t) = drop_bit k (unat t)"
    by (rule unat_drop_bit_eq)
  also have "\<dots> = unat t div 2 ^ k"
    by (rule drop_bit_eq_div)
  finally show ?thesis .
qed

text \<open>The bit count of \<open>copyTokenHelp\<close> as a function of the difference.\<close>

definition bitCountOf :: "nat \<Rightarrow> nat" where
  "bitCountOf difference = max (ceillog2 difference) 4"

lemma bitCountOf_bounds:
  assumes "d \<le> 2 ^ k"
  shows "4 \<le> bitCountOf d" "bitCountOf d \<le> max k 4"
proof -
  show "4 \<le> bitCountOf d" by (simp add: bitCountOf_def)
  have "ceillog2 d \<le> k"
  proof (cases "d = 0")
    case True then show ?thesis by simp
  next
    case False
    then have "0 < d" by simp
    from ceillog2_le_iff [OF this, of k] assms show ?thesis by simp
  qed
  then show "bitCountOf d \<le> max k 4" by (simp add: bitCountOf_def)
qed

lemma copyTokenHelp_eq:
  assumes "chunkStart \<le> us" "us - chunkStart \<le> 2 ^ 15" "us < 2 ^ 64"
  shows "copyTokenHelp (word_of_nat us) (word_of_nat chunkStart)
     = (mask (16 - bitCountOf (us - chunkStart)), NOT (mask (16 - bitCountOf (us - chunkStart))),
        word_of_nat (bitCountOf (us - chunkStart)), mask (16 - bitCountOf (us - chunkStart)) + 3)"
proof -
  let ?d = "us - chunkStart"
  have d: "unat (word_of_nat us - word_of_nat chunkStart :: uint) = ?d"
  proof -
    have "(word_of_nat us - word_of_nat chunkStart :: uint) = word_of_nat ?d"
      using assms(1) by (simp add: of_nat_diff)
    moreover have "unat (word_of_nat ?d :: uint) = ?d"
      using assms(3) by (simp add: unat_of_nat)
    ultimately show ?thesis by simp
  qed
  from bitCountOf_bounds [OF assms(2)]
  have b: "4 \<le> bitCountOf ?d" "bitCountOf ?d \<le> 16" by simp_all
  have ub: "unat (word_of_nat (bitCountOf ?d) :: uint16) = bitCountOf ?d"
    using b by (simp add: unat_of_nat)
  show ?thesis
    using b by (simp add: copyTokenHelp_def Let_def d ub lengthMask_eq bitCountOf_def [symmetric])
qed


lemma tokenLength_eq:
  assumes "4 \<le> b" "b \<le> 16"
  shows "tokenLength t (mask (16 - b)) = unat t mod 2 ^ (16 - b) + 3"
proof -
  have "unat t mod 2 ^ (16 - b) < 2 ^ (16 - b)" by simp
  also have "(2::nat) ^ (16 - b) \<le> 2 ^ 12"
    using assms by (intro power_increasing) simp_all
  finally have lt: "unat t mod 2 ^ (16 - b) < 4096" by simp
  have "unat ((t AND mask (16 - b)) + 3) = (unat (t AND mask (16 - b)) + 3) mod 2 ^ 16"
    by (simp add: unat_word_ariths)
  also have "\<dots> = unat t mod 2 ^ (16 - b) + 3"
    using lt by (simp add: unat_and_mask16)
  finally show ?thesis by (simp add: tokenLength_def)
qed

lemma tokenOffset_eq:
  assumes "4 \<le> b" "b \<le> 15"
  shows "tokenOffset t (NOT (mask (16 - b))) (word_of_nat b) = unat t div 2 ^ (16 - b) + 1"
proof -
  have t2: "unat (16 - word_of_nat b :: uint16) = 16 - b"
  proof -
    have e: "(16 - word_of_nat b :: uint16) = word_of_nat (16 - b)"
      using assms by (simp add: of_nat_diff)
    have "unat (word_of_nat (16 - b) :: uint16) = 16 - b"
      by (simp add: unat_of_nat)
    then show ?thesis by (simp only: e)
  qed
  have "unat t < 2 ^ 16" using unsigned_less [of t] by simp
  also have "(2::nat) ^ 16 = 2 ^ (16 - b) * 2 ^ b"
    using assms by (simp flip: power_add)
  finally have "unat t div 2 ^ (16 - b) < 2 ^ b"
    by (simp add: less_mult_imp_div_less mult.commute)
  also have "(2::nat) ^ b \<le> 2 ^ 15"
    using assms by (intro power_increasing) simp_all
  finally have lt: "unat t div 2 ^ (16 - b) < 32768" by simp
  have "unat (drop_bit (16 - b) (t AND NOT (mask (16 - b))) + 1)
      = (unat (drop_bit (16 - b) t) + 1) mod 2 ^ 16"
    by (simp only: drop_bit_and_not_mask) (simp add: unat_word_ariths)
  also have "\<dots> = unat t div 2 ^ (16 - b) + 1"
    using lt by (simp add: unat_drop_bit16)
  finally show ?thesis by (simp add: tokenOffset_def Let_def t2)
qed

lemma bitCountOf_log:
  "bitCountOf d = (if d = 0 then 4 else nat (max \<lceil>log 2 (real d)\<rceil> 4))"
  by (auto simp: bitCountOf_def ceillog2_def max_def)

lemma copyTokenStep_eq:
  assumes "chunkStart \<le> us" "us \<le> VBABuffSize" "cur + 2 \<le> length cbuf"
  shows "copyTokenStep cbuf chunkStart cur ubuf us =
     (let b = bitCountOf (us - chunkStart);
          t = unat (Uint16 (cbuf ! cur) (cbuf ! (cur + 1)));
          len = t mod 2 ^ (16 - b) + 3;
          offset = t div 2 ^ (16 - b) + 1
      in copyLoop (int us - int offset) (int us - int offset + int len) ubuf us)"
proof -
  from assms(2) have d: "us - chunkStart \<le> 2 ^ 15" and u: "us < 2 ^ 64"
    by (simp_all add: VBABuffSize_def)
  from bitCountOf_bounds [OF d]
  have b: "4 \<le> bitCountOf (us - chunkStart)" "bitCountOf (us - chunkStart) \<le> 15"
    "bitCountOf (us - chunkStart) \<le> 16" by simp_all
  show ?thesis
    using assms(3)
    by (simp add: copyTokenStep_def copyTokenHelp_eq [OF assms(1) d u] Let_def
          tokenLength_eq [OF b(1,3)] tokenOffset_eq [OF b(1,2)])
qed


lemma itemLoop_done:
  "\<not> bi < 8 \<Longrightarrow> itemLoop cbuf cend cs fb bi (cur, ubuf, us) = Return (cur, ubuf, us)"
  by (simp add: itemLoop.simps)

lemma itemLoop_skip:
  "bi < 8 \<Longrightarrow> \<not> cur < cend \<Longrightarrow>
   itemLoop cbuf cend cs fb bi (cur, ubuf, us) = itemLoop cbuf cend cs fb (bi + 1) (cur, ubuf, us)"
  by (subst itemLoop.simps) simp

lemma itemLoop_literal:
  "bi < 8 \<Longrightarrow> cur < cend \<Longrightarrow> drop_bit bi fb AND 1 = 0 \<Longrightarrow>
   itemLoop cbuf cend cs fb bi (cur, ubuf, us) =
     (if length cbuf \<le> cur \<or> length ubuf \<le> us then Panic
      else itemLoop cbuf cend cs fb (bi + 1) (cur + 1, ubuf[us := cbuf ! cur], us + 1))"
  by (subst itemLoop.simps) simp

lemma itemLoop_copy:
  "bi < 8 \<Longrightarrow> cur < cend \<Longrightarrow> drop_bit bi fb AND 1 \<noteq> 0 \<Longrightarrow>
   itemLoop cbuf cend cs fb bi (cur, ubuf, us) =
     (case copyTokenStep cbuf cs cur ubuf us of
        Panic \<Rightarrow> Panic
      | Return (ubuf', us') \<Rightarrow> itemLoop cbuf cend cs fb (bi + 1) (cur + 2, ubuf', us'))"
  by (subst itemLoop.simps) simp

text \<open>
  Claim C1. For every copy token (an item whose flag bit is 1) decoded at the decompressed
  position \<open>us\<close> of a chunk that began at \<open>chunkStart\<close>, with
  \<open>difference = us - chunkStart\<close>, the decoder uses the bit count
  \<open>b = max (ceiling (log2 difference)) 4\<close> (4 when the difference is 0), takes the low
  \<open>16 - b\<close> bits of the token plus 3 as the length (so at least 3) and the high \<open>b\<close> bits plus
  1 as the offset, and copies \<open>length\<close> bytes from \<open>us - offset\<close>. The equation holds at every
  token, with the \<open>uSize\<close> reached just before it.
\<close>

theorem C1_copy_token_split:
  assumes "bitIndex < 8" and "cur < CompressedEnd" and "drop_bit bitIndex flagByte AND 1 \<noteq> 0"
    and "cur + 2 \<le> length cbuf" and "chunkStart \<le> us" and "us \<le> VBABuffSize"
  shows "itemLoop cbuf CompressedEnd chunkStart flagByte bitIndex (cur, ubuf, us) =
     (let difference = us - chunkStart;
          b = (if difference = 0 then 4 else nat (max \<lceil>log 2 (real difference)\<rceil> 4));
          t = unat (Uint16 (cbuf ! cur) (cbuf ! (cur + 1)));
          len = t mod 2 ^ (16 - b) + 3;
          offset = t div 2 ^ (16 - b) + 1
      in case copyLoop (int us - int offset) (int us - int offset + int len) ubuf us of
           Panic \<Rightarrow> Panic
         | Return (ubuf', us') \<Rightarrow>
             itemLoop cbuf CompressedEnd chunkStart flagByte (bitIndex + 1) (cur + 2, ubuf', us'))"
  unfolding itemLoop_copy [OF assms(1,2,3)] copyTokenStep_eq [OF assms(5,6,4)]
    bitCountOf_log Let_def
  by (rule refl)

theorem C1_copy_token_split_witness:
  "(0::nat) < 8 \<and> (0::nat) < 2 \<and> drop_bit 0 (1::byte) AND 1 \<noteq> 0
   \<and> 0 + 2 \<le> length [7, 0 :: byte] \<and> (0::nat) \<le> 1 \<and> 1 \<le> VBABuffSize
   \<and> itemLoop [7, 0] 2 0 1 0 (0, replicate 4098 0x41, 1) =
     (let difference = 1 - 0;
          b = (if difference = 0 then 4 else nat (max \<lceil>log 2 (real difference)\<rceil> 4));
          t = unat (Uint16 ([7, 0] ! 0) ([7, 0] ! (0 + 1)));
          len = t mod 2 ^ (16 - b) + 3;
          offset = t div 2 ^ (16 - b) + 1
      in case copyLoop (int 1 - int offset) (int 1 - int offset + int len)
                (replicate 4098 0x41) 1 of
           Panic \<Rightarrow> Panic
         | Return (ubuf', us') \<Rightarrow> itemLoop [7, 0] 2 0 1 (0 + 1) (0 + 2, ubuf', us'))"
proof -
  have h1: "(0::nat) < 8" and h2: "(0::nat) < 2" and h3: "drop_bit 0 (1::byte) AND 1 \<noteq> 0"
    and h4: "0 + 2 \<le> length [7, 0 :: byte]" and h5: "(0::nat) \<le> 1"
    and h6: "1 \<le> VBABuffSize"
    by (simp_all add: VBABuffSize_def)
  from h1 h2 h3 h4 h5 h6
    C1_copy_token_split [OF h1 h2 h3 h4 h5 h6, of "replicate 4098 0x41"]
  show ?thesis by blast
qed

section \<open>The copy loop\<close>

text \<open>
  The bytes a copy token stands for, following the words of the specification: \<open>n\<close> bytes
  are appended to the output \<open>out\<close> one at a time, each read \<open>offset\<close> positions before the
  end of the output as it is at that moment, so that a byte written by the copy is a valid
  source later in the same copy.
\<close>

fun lzCopy :: "byte list \<Rightarrow> nat \<Rightarrow> nat \<Rightarrow> byte list" where
  "lzCopy out offset 0 = out"
| "lzCopy out offset (Suc n) = lzCopy (out @ [out ! (length out - offset)]) offset n"

lemma copyLoop_stop: "\<not> index < stop \<Longrightarrow> copyLoop index stop ubuf us = Return (ubuf, us)"
  by (simp add: copyLoop.simps)

lemma copyLoop_negative:
  "index < 0 \<Longrightarrow> index < stop \<Longrightarrow> copyLoop index stop ubuf us = Panic"
  by (simp add: copyLoop.simps)

lemma copyLoop_overflow:
  "index < stop \<Longrightarrow> length ubuf \<le> us \<Longrightarrow> copyLoop index stop ubuf us = Panic"
  by (simp add: copyLoop.simps)

lemma copyLoop_step:
  "0 \<le> index \<Longrightarrow> index < stop \<Longrightarrow> nat index < length ubuf \<Longrightarrow> us < length ubuf \<Longrightarrow>
   copyLoop index stop ubuf us = copyLoop (index + 1) stop (ubuf[us := ubuf ! nat index]) (us + 1)"
  by (subst copyLoop.simps) auto

lemma copyLoop_Return:
  assumes "1 \<le> offset" "offset \<le> us" "us + n \<le> length ubuf"
  shows "\<exists>ubuf'. copyLoop (int us - int offset) (int us - int offset + int n) ubuf us
                     = Return (ubuf', us + n)
           \<and> length ubuf' = length ubuf
           \<and> take (us + n) ubuf' = lzCopy (take us ubuf) offset n
           \<and> drop (us + n) ubuf' = drop (us + n) ubuf"
  using assms
proof (induction n arbitrary: ubuf us)
  case 0
  then show ?case by (simp add: copyLoop_stop)
next
  case (Suc n)
  let ?i = "int us - int offset"
  let ?u = "ubuf[us := ubuf ! nat ?i]"
  from Suc.prems have i: "0 \<le> ?i" "?i < ?i + int (Suc n)" "nat ?i < length ubuf"
    "us < length ubuf" "nat ?i = us - offset" "nat ?i < us"
    by auto
  have step: "copyLoop ?i (?i + int (Suc n)) ubuf us
      = copyLoop (int (us + 1) - int offset) (int (us + 1) - int offset + int n) ?u (us + 1)"
    using copyLoop_step [OF i(1,2,3,4)] by (simp add: algebra_simps)
  from Suc.prems have p: "1 \<le> offset" "offset \<le> us + 1" "us + 1 + n \<le> length ?u"
    by auto
  from Suc.IH [OF p] obtain ubuf' where
    r: "copyLoop (int (us + 1) - int offset) (int (us + 1) - int offset + int n) ?u (us + 1)
          = Return (ubuf', us + 1 + n)"
    and l: "length ubuf' = length ?u"
    and t: "take (us + 1 + n) ubuf' = lzCopy (take (us + 1) ?u) offset n"
    and d: "drop (us + 1 + n) ubuf' = drop (us + 1 + n) ?u"
    by blast
  have tk: "take (us + 1) ?u = take us ubuf @ [take us ubuf ! (length (take us ubuf) - offset)]"
    using i by (simp add: take_Suc_conv_app_nth min_def)
  from step r l t d tk show ?case by simp
qed

lemma copyLoop_Panic:
  assumes "1 \<le> offset" "0 < n" "us < offset \<or> length ubuf < us + n"
  shows "copyLoop (int us - int offset) (int us - int offset + int n) ubuf us = Panic"
  using assms
proof (induction n arbitrary: ubuf us)
  case 0
  then show ?case by simp
next
  case (Suc n)
  let ?i = "int us - int offset"
  show ?case
  proof (cases "us < offset")
    case True
    then show ?thesis by (simp add: copyLoop_negative)
  next
    case False
    with Suc.prems have ov: "length ubuf < us + Suc n" and le: "offset \<le> us" by auto
    show ?thesis
    proof (cases "length ubuf \<le> us")
      case True
      then show ?thesis by (simp add: copyLoop_overflow)
    next
      case inb: False
      let ?u = "ubuf[us := ubuf ! nat ?i]"
      from le Suc.prems(1) inb have i: "0 \<le> ?i" "?i < ?i + int (Suc n)" "nat ?i < length ubuf"
        "us < length ubuf" by auto
      have step: "copyLoop ?i (?i + int (Suc n)) ubuf us
          = copyLoop (int (us + 1) - int offset) (int (us + 1) - int offset + int n) ?u (us + 1)"
        using copyLoop_step [OF i(1,2,3,4)] by (simp add: algebra_simps)
      from ov inb have n: "0 < n" by (cases n) auto
      from ov have "us + 1 < offset \<or> length ?u < us + 1 + n" by simp
      from Suc.IH [OF Suc.prems(1) n this] step show ?thesis by simp
    qed
  qed
qed

lemma copyLoop_inv:
  "copyLoop index stop ubuf us = Return (ubuf', us') \<Longrightarrow> us \<le> length ubuf \<Longrightarrow>
   length ubuf' = length ubuf \<and> us \<le> us' \<and> us' \<le> length ubuf"
proof (induction index stop ubuf us rule: copyLoop.induct)
  case (1 index stop ubuf us)
  show ?case
  proof (cases "index < stop")
    case False
    with "1.prems" show ?thesis by (simp add: copyLoop_stop)
  next
    case True
    note eq = "1.prems"(1) [unfolded copyLoop.simps [of index stop ubuf us]]
    from eq True have nb: "\<not> (index < 0 \<or> int (length ubuf) \<le> index \<or> length ubuf \<le> us)"
      by (auto split: if_splits)
    with eq True have r: "copyLoop (index + 1) stop (ubuf[us := ubuf ! nat index]) (us + 1)
        = Return (ubuf', us')" by simp
    from nb have "us + 1 \<le> length (ubuf[us := ubuf ! nat index])" by simp
    from "1.IH" [OF True nb r this] show ?thesis by simp
  qed
qed

lemma copyTokenStep_inv:
  "copyTokenStep cbuf cs cur ubuf us = Return (ubuf', us') \<Longrightarrow> us \<le> length ubuf \<Longrightarrow>
   length ubuf' = length ubuf \<and> us \<le> us' \<and> us' \<le> length ubuf"
  by (auto simp: copyTokenStep_def Let_def split: if_splits prod.splits dest!: copyLoop_inv)

lemma itemLoop_inv:
  "itemLoop cbuf cend cs fb bi s = Return s' \<Longrightarrow>
   snd (snd s) \<le> length (fst (snd s)) \<Longrightarrow> fst s \<le> cend + 1 \<Longrightarrow>
   length (fst (snd s')) = length (fst (snd s)) \<and> snd (snd s) \<le> snd (snd s')
   \<and> snd (snd s') \<le> length (fst (snd s)) \<and> fst s' \<le> cend + 1"
proof (induction cbuf cend cs fb bi s arbitrary: s' rule: itemLoop.induct)
  case (1 cbuf cend cs fb bi cur ubuf us)
  show ?case
  proof (cases "bi < 8")
    case False
    with "1.prems" show ?thesis by (auto simp: itemLoop_done)
  next
    case bi: True
    show ?thesis
    proof (cases "cur < cend")
      case False
      with bi "1.prems" "1.IH"(3) [OF bi False, of s'] show ?thesis
        by (simp add: itemLoop_skip)
    next
      case cur: True
      show ?thesis
      proof (cases "drop_bit bi fb AND 1 = 0")
        case True
        from "1.prems"(1) have eq: "(if length cbuf \<le> cur \<or> length ubuf \<le> us then Panic
           else itemLoop cbuf cend cs fb (bi + 1) (cur + 1, ubuf[us := cbuf ! cur], us + 1)) = Return s'"
          by (simp add: itemLoop_literal [OF bi cur True])
        then have nb: "\<not> (length cbuf \<le> cur \<or> length ubuf \<le> us)"
          by (auto split: if_splits)
        with eq have r: "itemLoop cbuf cend cs fb (bi + 1) (cur + 1, ubuf[us := cbuf ! cur], us + 1)
           = Return s'" by simp
        from "1.IH"(1) [OF bi cur True nb r] nb cur show ?thesis by simp
      next
        case False
        from "1.prems"(1) obtain ubuf1 us1 where
          st: "copyTokenStep cbuf cs cur ubuf us = Return (ubuf1, us1)"
          and r: "itemLoop cbuf cend cs fb (bi + 1) (cur + 2, ubuf1, us1) = Return s'"
          by (auto simp: itemLoop_copy [OF bi cur False] split: outcome.splits)
        from copyTokenStep_inv [OF st] "1.prems"(2)
        have i: "length ubuf1 = length ubuf" "us \<le> us1" "us1 \<le> length ubuf" by simp_all
        from "1.IH"(2) [OF bi cur False st refl r] i cur show ?thesis by simp
      qed
    qed
  qed
qed

lemma chunkLoop_stop:
  "\<not> cur < cend \<Longrightarrow> chunkLoop cbuf cend cs (cur, ubuf, us) = Return (cur, ubuf, us)"
  by (simp add: chunkLoop.simps)

lemma chunkLoop_step:
  "cur < cend \<Longrightarrow> cur < length cbuf \<Longrightarrow>
   chunkLoop cbuf cend cs (cur, ubuf, us) =
     (case itemLoop cbuf cend cs (cbuf ! cur) 0 (cur + 1, ubuf, us) of
        Panic \<Rightarrow> Panic
      | Return s' \<Rightarrow> chunkLoop cbuf cend cs s')"
  by (subst chunkLoop.simps) simp

lemma chunkLoop_inv:
  "chunkLoop cbuf cend cs s = Return s' \<Longrightarrow>
   snd (snd s) \<le> length (fst (snd s)) \<Longrightarrow> fst s \<le> cend + 1 \<Longrightarrow>
   length (fst (snd s')) = length (fst (snd s)) \<and> snd (snd s) \<le> snd (snd s')
   \<and> snd (snd s') \<le> length (fst (snd s)) \<and> fst s' \<le> cend + 1 \<and> cend \<le> fst s'"
proof (induction cbuf cend cs s arbitrary: s' rule: chunkLoop.induct)
  case (1 cbuf cend cs cur ubuf us)
  show ?case
  proof (cases "cur < cend")
    case False
    with "1.prems" show ?thesis by (auto simp: chunkLoop_stop)
  next
    case True
    note eq = "1.prems"(1) [unfolded chunkLoop.simps [of cbuf cend cs cur ubuf us]]
    from eq True have nb: "\<not> length cbuf \<le> cur" by (auto split: if_splits)
    with eq True obtain s1 where
      i: "itemLoop cbuf cend cs (cbuf ! cur) 0 (cur + 1, ubuf, us) = Return s1"
      and r: "chunkLoop cbuf cend cs s1 = Return s'"
      by (auto split: outcome.splits)
    from itemLoop_inv [OF i] "1.prems"(2) True
    have a: "length (fst (snd s1)) = length ubuf" "us \<le> snd (snd s1)"
      "snd (snd s1) \<le> length ubuf" "fst s1 \<le> cend + 1" by simp_all
    from "1.IH" [OF True nb i r] a show ?thesis by simp
  qed
qed

section \<open>The header fields\<close>

text \<open>
  The flag (bit 15) and the declared size (low 12 bits plus 3) of the header at the front
  of the compressed buffer, as \<open>uncompressChunk\<close> computes them.
\<close>

definition chunkHeader :: "VBAWriter \<Rightarrow> uint16" where
  "chunkHeader vba = Uint16 (compressedBuffer vba ! 0) (compressedBuffer vba ! 1)"

definition chunkFlag :: "VBAWriter \<Rightarrow> uint16" where
  "chunkFlag vba = drop_bit 15 (chunkHeader vba) AND 1"

definition declaredSize :: "VBAWriter \<Rightarrow> nat" where
  "declaredSize vba = unat ((chunkHeader vba AND 0x0FFF) + 3)"

lemma chunkSignature_header: "chunkSignature vba = drop_bit 12 (chunkHeader vba) AND 7"
  by (simp add: chunkSignature_def chunkHeader_def)

lemma declaredSize_bounds: "3 \<le> declaredSize vba" "declaredSize vba \<le> 4098"
  using and_fff_le [of "chunkHeader vba"]
  by (simp_all add: declaredSize_def chunkSize_unat)

lemma declaredSize_4098:
  "((chunkHeader vba AND 0x0FFF) + 3 \<noteq> 4098) = (declaredSize vba \<noteq> 4098)"
proof -
  have "unat (4098 :: uint16) = 4098" by simp
  then show ?thesis
    unfolding declaredSize_def by (metis unsigned_word_eqI)
qed

lemma uncompressChunk_unfold:
  assumes "2 \<le> length (compressedBuffer vba)" "chunkSignature vba = 3"
  shows "uncompressChunk vba =
    (if cSize vba < declaredSize vba then Return (0, None, vba\<lparr>uSize := 0\<rparr>)
     else if chunkFlag vba = 0 then
       (if declaredSize vba \<noteq> 4098 then
          Return (0, Some UncompressedChunkSizeError, vba\<lparr>uSize := 0\<rparr>)
        else if length (uncompressedBuffer vba) < 4096 \<or> length (compressedBuffer vba) < 4098
          then Panic
        else Return (4098, None,
               vba\<lparr>uncompressedBuffer :=
                      go_copy (uncompressedBuffer vba) 0 4096 (take 4096 (drop 2 (compressedBuffer vba))),
                    uSize := 4096\<rparr>))
     else
       (case chunkLoop (compressedBuffer vba) (declaredSize vba) 0 (2, uncompressedBuffer vba, 0) of
          Panic \<Rightarrow> Panic
        | Return (cur, ubuf, us) \<Rightarrow>
            Return (cur, None, vba\<lparr>uncompressedBuffer := ubuf, uSize := us\<rparr>)))"
proof -
  have f1: "(drop_bit 12 (chunkHeader vba) AND 7 \<noteq> 3) = False"
    using assms(2) by (simp add: chunkSignature_header)
  have f2: "unat ((chunkHeader vba AND 0x0FFF) + 3) = declaredSize vba"
    by (simp add: declaredSize_def)
  have f4: "drop_bit 15 (chunkHeader vba) AND 1 = chunkFlag vba"
    by (simp add: chunkFlag_def)
  have f5: "(length (compressedBuffer vba) < 2) = False"
    using assms(1) by simp
  show ?thesis
    unfolding uncompressChunk_def Let_def chunkHeader_def [symmetric]
    by (simp only: f1 f2 f4 f5 declaredSize_4098 if_False) (simp cong: outcome.case_cong)
qed

lemma go_copy_take:
  "n \<le> length buf \<Longrightarrow> n \<le> length src \<Longrightarrow> take n (go_copy buf 0 n src) = take n src"
  by (simp add: go_copy_def Let_def min_def)

section \<open>Raw chunks and insufficient data\<close>

text \<open>
  Claim C6. For every chunk with compressedFlag 0 (valid signature, all declared bytes
  buffered): if its declared size is not 4098, decoding fails with the error
  "Uncompressed chunk size error"; otherwise the 4096 bytes after the 2-byte header are
  copied unchanged to the front of the uncompressed buffer, \<open>uSize\<close> is 4096 and 4098 bytes
  are reported as processed.
\<close>

theorem C6_raw_chunk:
  assumes "length (compressedBuffer vba) = VBABuffSize"
    and "length (uncompressedBuffer vba) = VBABuffSize"
    and "chunkSignature vba = 3" and "chunkFlag vba = 0"
    and "declaredSize vba \<le> cSize vba"
  shows "(declaredSize vba \<noteq> 4098 \<longrightarrow>
            uncompressChunk vba = Return (0, Some UncompressedChunkSizeError, vba\<lparr>uSize := 0\<rparr>))
       \<and> (declaredSize vba = 4098 \<longrightarrow>
            (\<exists>vba'. uncompressChunk vba = Return (4098, None, vba') \<and> uSize vba' = 4096
               \<and> take 4096 (uncompressedBuffer vba') = take 4096 (drop 2 (compressedBuffer vba))
               \<and> compressedBuffer vba' = compressedBuffer vba \<and> cSize vba' = cSize vba))"
proof -
  from assms(1) have l2: "2 \<le> length (compressedBuffer vba)" by (simp add: VBABuffSize_def)
  have "take 4096 (go_copy (uncompressedBuffer vba) 0 4096 (take 4096 (drop 2 (compressedBuffer vba))))
      = take 4096 (drop 2 (compressedBuffer vba))"
    using assms(1,2) by (subst go_copy_take) (simp_all add: VBABuffSize_def)
  then show ?thesis
    using assms by (simp add: uncompressChunk_unfold [OF l2 assms(3)] VBABuffSize_def)
qed

text \<open>A writer whose compressed buffer holds the header \<open>h0 h1\<close> and 4096 bytes A.\<close>

definition rawChunkState :: "byte \<Rightarrow> byte \<Rightarrow> VBAWriter" where
  "rawChunkState h0 h1 = NewWriter\<lparr>compressedBuffer := [h0, h1] @ replicate 4096 0x41,
                                    cSize := 4098, marker_found := True\<rparr>"

lemma rawChunkState_simps:
  "length (compressedBuffer (rawChunkState h0 h1)) = VBABuffSize"
  "length (uncompressedBuffer (rawChunkState h0 h1)) = VBABuffSize"
  "cSize (rawChunkState h0 h1) = 4098"
  "chunkHeader (rawChunkState h0 h1) = Uint16 h0 h1"
  by (simp_all add: rawChunkState_def NewWriter_def VBABuffSize_def chunkHeader_def)

theorem C6_raw_chunk_witness:
  "length (compressedBuffer (rawChunkState 0xFF 0x3F)) = VBABuffSize
   \<and> length (uncompressedBuffer (rawChunkState 0xFF 0x3F)) = VBABuffSize
   \<and> chunkSignature (rawChunkState 0xFF 0x3F) = 3 \<and> chunkFlag (rawChunkState 0xFF 0x3F) = 0
   \<and> declaredSize (rawChunkState 0xFF 0x3F) \<le> cSize (rawChunkState 0xFF 0x3F)
   \<and> declaredSize (rawChunkState 0xFF 0x3F) = 4098
   \<and> (\<exists>vba'. uncompressChunk (rawChunkState 0xFF 0x3F) = Return (4098, None, vba')
         \<and> uSize vba' = 4096
         \<and> take 4096 (uncompressedBuffer vba')
             = take 4096 (drop 2 (compressedBuffer (rawChunkState 0xFF 0x3F)))
         \<and> compressedBuffer vba' = compressedBuffer (rawChunkState 0xFF 0x3F)
         \<and> cSize vba' = cSize (rawChunkState 0xFF 0x3F))
   \<and> length (compressedBuffer (rawChunkState 0x0A 0x30)) = VBABuffSize
   \<and> length (uncompressedBuffer (rawChunkState 0x0A 0x30)) = VBABuffSize
   \<and> chunkSignature (rawChunkState 0x0A 0x30) = 3 \<and> chunkFlag (rawChunkState 0x0A 0x30) = 0
   \<and> declaredSize (rawChunkState 0x0A 0x30) \<le> cSize (rawChunkState 0x0A 0x30)
   \<and> declaredSize (rawChunkState 0x0A 0x30) \<noteq> 4098
   \<and> uncompressChunk (rawChunkState 0x0A 0x30)
       = Return (0, Some UncompressedChunkSizeError, (rawChunkState 0x0A 0x30)\<lparr>uSize := 0\<rparr>)"
proof -
  note s = rawChunkState_simps chunkSignature_header chunkFlag_def declaredSize_def Uint16_def
  have a: "length (compressedBuffer (rawChunkState 0xFF 0x3F)) = VBABuffSize"
    "length (uncompressedBuffer (rawChunkState 0xFF 0x3F)) = VBABuffSize"
    "chunkSignature (rawChunkState 0xFF 0x3F) = 3" "chunkFlag (rawChunkState 0xFF 0x3F) = 0"
    "declaredSize (rawChunkState 0xFF 0x3F) \<le> cSize (rawChunkState 0xFF 0x3F)"
    "declaredSize (rawChunkState 0xFF 0x3F) = 4098"
    by (simp_all add: s)
  have b: "length (compressedBuffer (rawChunkState 0x0A 0x30)) = VBABuffSize"
    "length (uncompressedBuffer (rawChunkState 0x0A 0x30)) = VBABuffSize"
    "chunkSignature (rawChunkState 0x0A 0x30) = 3" "chunkFlag (rawChunkState 0x0A 0x30) = 0"
    "declaredSize (rawChunkState 0x0A 0x30) \<le> cSize (rawChunkState 0x0A 0x30)"
    "declaredSize (rawChunkState 0x0A 0x30) \<noteq> 4098"
    by (simp_all add: s)
  from a b C6_raw_chunk [OF a(1,2,3,4,5)] C6_raw_chunk [OF b(1,2,3,4,5)]
  show ?thesis by blast
qed

text \<open>
  Claim C4, as amended. For every buffer state whose header carries the signature bits
  \<open>0b011\<close> and that holds fewer bytes than the declared chunk size (also a single byte,
  the header's high byte then being the buffer's second byte as earlier chunks left it), a
  chunk-decode attempt is not an error: it reports 0 bytes processed, produces nothing
  (\<open>uSize = 0\<close>), and \<open>uncompress\<close> returns its running total with the compressed buffer,
  \<open>cSize\<close> and the sink unchanged. (The signature is checked before the size: see the
  counterexample.)
\<close>

theorem C4_insufficient_data:
  assumes "length (compressedBuffer vba) = VBABuffSize"
    and "chunkSignature vba = 3" and "cSize vba < declaredSize vba"
  shows "uncompressChunk vba = Return (0, None, vba\<lparr>uSize := 0\<rparr>)
       \<and> uncompress wr tot vba sink
           = Return (tot, None, if 0 < cSize vba then vba\<lparr>uSize := 0\<rparr> else vba, sink)"
proof -
  from assms(1) have l2: "2 \<le> length (compressedBuffer vba)" by (simp add: VBABuffSize_def)
  have c: "uncompressChunk vba = Return (0, None, vba\<lparr>uSize := 0\<rparr>)"
    using assms(3) by (simp add: uncompressChunk_unfold [OF l2 assms(2)])
  then show ?thesis
    by (simp add: uncompress.simps [of wr tot vba sink])
qed

text \<open>
  The writer after the marker chunk (header, flag byte 0, the text Attribut) was decoded
  and the two bytes \<open>h0 h1\<close> that followed it were shifted to the front of the buffer.
\<close>

definition shortHeaderState :: "byte \<Rightarrow> byte \<Rightarrow> VBAWriter" where
  "shortHeaderState h0 h1 =
     NewWriter\<lparr>compressedBuffer :=
                 [h0, h1, 0, 0x41, 0x74, 0x74, 0x72, 0x69, 0x62, 0x75, 0x74] @ replicate 4087 0,
               uncompressedBuffer :=
                 [0x41, 0x74, 0x74, 0x72, 0x69, 0x62, 0x75, 0x74] @ replicate 4090 0,
               cSize := 2, marker_cur := 12, marker_found := True\<rparr>"

lemma shortHeaderState_simps:
  "length (compressedBuffer (shortHeaderState h0 h1)) = VBABuffSize"
  "length (uncompressedBuffer (shortHeaderState h0 h1)) = VBABuffSize"
  "cSize (shortHeaderState h0 h1) = 2"
  "chunkHeader (shortHeaderState h0 h1) = Uint16 h0 h1"
  by (simp_all add: shortHeaderState_def NewWriter_def VBABuffSize_def chunkHeader_def)

theorem C4_insufficient_data_witness:
  "length (compressedBuffer (shortHeaderState 0x05 0xB0)) = VBABuffSize
   \<and> chunkSignature (shortHeaderState 0x05 0xB0) = 3
   \<and> cSize (shortHeaderState 0x05 0xB0) < declaredSize (shortHeaderState 0x05 0xB0)
   \<and> uncompressChunk (shortHeaderState 0x05 0xB0)
       = Return (0, None, (shortHeaderState 0x05 0xB0)\<lparr>uSize := 0\<rparr>)
   \<and> uncompress appendSink 11 (shortHeaderState 0x05 0xB0) []
       = Return (11, None,
           if 0 < cSize (shortHeaderState 0x05 0xB0)
           then (shortHeaderState 0x05 0xB0)\<lparr>uSize := 0\<rparr> else shortHeaderState 0x05 0xB0, [])"
proof -
  have a: "length (compressedBuffer (shortHeaderState 0x05 0xB0)) = VBABuffSize"
    "chunkSignature (shortHeaderState 0x05 0xB0) = 3"
    "cSize (shortHeaderState 0x05 0xB0) < declaredSize (shortHeaderState 0x05 0xB0)"
    by (simp_all add: shortHeaderState_simps chunkSignature_header declaredSize_def Uint16_def)
  from a C4_insufficient_data [OF a, of appendSink 11 "[]"] show ?thesis by blast
qed

text \<open>
  Counterexample to C4 as stated: two bytes 05 00 are buffered, the declared size is 8, and
  the decode attempt is the fatal signature error, not a wait for more data.
\<close>

theorem C4_signature_checked_first_counterexample:
  "cSize (shortHeaderState 0x05 0x00) < declaredSize (shortHeaderState 0x05 0x00)
   \<and> uncompressChunk (shortHeaderState 0x05 0x00)
       = Return (0, Some ChunkSignatureMismatch, (shortHeaderState 0x05 0x00)\<lparr>uSize := 0\<rparr>)
   \<and> uncompress appendSink 11 (shortHeaderState 0x05 0x00) []
       = Return (11, Some ChunkSignatureMismatch, (shortHeaderState 0x05 0x00)\<lparr>uSize := 0\<rparr>, [])"
proof -
  have l: "2 \<le> length (compressedBuffer (shortHeaderState 0x05 0x00))"
    by (simp add: shortHeaderState_simps VBABuffSize_def)
  have s: "chunkSignature (shortHeaderState 0x05 0x00) \<noteq> 3"
    by (simp add: shortHeaderState_simps chunkSignature_header Uint16_def)
  have c: "0 < cSize (shortHeaderState 0x05 0x00)"
    by (simp add: shortHeaderState_simps)
  have d: "cSize (shortHeaderState 0x05 0x00) < declaredSize (shortHeaderState 0x05 0x00)"
    by (simp add: shortHeaderState_simps declaredSize_def Uint16_def)
  from d uncompressChunk_bad_signature [OF l s] uncompress_bad_signature [OF l s c, of appendSink 11 "[]"]
  show ?thesis by blast
qed

section \<open>Bytes consumed and produced by a chunk\<close>

text \<open>
  A compressed chunk of declared size 5: flag byte 2, the literal A, and a copy token
  whose first byte is the last byte of the chunk.
\<close>

definition straddleBuf :: "byte list" where
  "straddleBuf = [0x02, 0xB0, 0x02, 0x41, 0x00, 0x00] @ replicate 4092 0"

definition straddleState :: VBAWriter where
  "straddleState =
     NewWriter\<lparr>compressedBuffer := straddleBuf,
               cSize := 6, marker_cur := 12, marker_found := True\<rparr>"

lemma straddleBuf_simps:
  "length straddleBuf = 4098"
  "straddleBuf ! 0 = 0x02" "straddleBuf ! Suc 0 = 0xB0" "straddleBuf ! 2 = 0x02"
  "straddleBuf ! 3 = 0x41" "straddleBuf ! 4 = 0" "straddleBuf ! 5 = 0"
  by (simp_all add: straddleBuf_def)

lemma straddleState_simps:
  "compressedBuffer straddleState = straddleBuf"
  "uncompressedBuffer straddleState = replicate 4098 0"
  "cSize straddleState = 6"
  "chunkHeader straddleState = 0xB002"
  by (simp_all add: straddleState_def NewWriter_def VBABuffSize_def chunkHeader_def Uint16_def
        straddleBuf_simps)





section \<open>The window of a copy token\<close>

text \<open>
  Claim C3, as amended. The offset of a copy token is at least 1. The decoder does not
  check the window: when the offset is at most the number of bytes already produced in the
  chunk (\<open>uSize\<close>, the chunk starts at 0) and the copy ends within the buffer, the token is
  expanded byte by byte with every read and write inside the 4098-byte buffer and the rest
  of the buffer untouched; otherwise the first access outside the buffer is a panic of the
  Go runtime (index out of range).
\<close>

theorem C3_copy_token_window:
  assumes "us \<le> length ubuf" and "length ubuf = VBABuffSize" and "cur + 2 \<le> length cbuf"
  shows "(let b = bitCountOf us;
              t = unat (Uint16 (cbuf ! cur) (cbuf ! (cur + 1)));
              len = t mod 2 ^ (16 - b) + 3;
              offset = t div 2 ^ (16 - b) + 1
          in 1 \<le> offset
             \<and> (if us < offset \<or> length ubuf < us + len
                 then copyTokenStep cbuf 0 cur ubuf us = Panic
                 else (\<exists>ubuf'. copyTokenStep cbuf 0 cur ubuf us = Return (ubuf', us + len)
                         \<and> length ubuf' = length ubuf
                         \<and> take (us + len) ubuf' = lzCopy (take us ubuf) offset len
                         \<and> drop (us + len) ubuf' = drop (us + len) ubuf)))"
proof -
  from assms(1,2) have u: "us \<le> VBABuffSize" by simp
  define b where "b = bitCountOf us"
  define t where "t = unat (Uint16 (cbuf ! cur) (cbuf ! (cur + 1)))"
  define len where "len = t mod 2 ^ (16 - b) + 3"
  define offset where "offset = t div 2 ^ (16 - b) + 1"
  have st: "copyTokenStep cbuf 0 cur ubuf us
      = copyLoop (int us - int offset) (int us - int offset + int len) ubuf us"
    using copyTokenStep_eq [OF _ u assms(3), of 0 ubuf]
    by (simp add: Let_def b_def t_def len_def offset_def)
  have o: "1 \<le> offset" and l: "0 < len" by (simp_all add: offset_def len_def)
  have "if us < offset \<or> length ubuf < us + len
        then copyTokenStep cbuf 0 cur ubuf us = Panic
        else (\<exists>ubuf'. copyTokenStep cbuf 0 cur ubuf us = Return (ubuf', us + len)
                \<and> length ubuf' = length ubuf
                \<and> take (us + len) ubuf' = lzCopy (take us ubuf) offset len
                \<and> drop (us + len) ubuf' = drop (us + len) ubuf)"
  proof (cases "us < offset \<or> length ubuf < us + len")
    case True
    from copyLoop_Panic [OF o l True] True st show ?thesis by simp
  next
    case False
    then have "offset \<le> us" "us + len \<le> length ubuf" by auto
    from copyLoop_Return [OF o this] False st show ?thesis by simp
  qed
  with o show ?thesis
    unfolding Let_def b_def t_def len_def offset_def by simp
qed

theorem C3_copy_token_window_witness:
  "Suc 0 \<le> length ((replicate 4098 0)[0 := (0x41::byte)])
   \<and> length ((replicate 4098 0)[0 := (0x41::byte)]) = VBABuffSize
   \<and> 4 + 2 \<le> length straddleBuf
   \<and> (let b = bitCountOf (Suc 0);
              t = unat (Uint16 (straddleBuf ! 4) (straddleBuf ! (4 + 1)));
              len = t mod 2 ^ (16 - b) + 3;
              offset = t div 2 ^ (16 - b) + 1
          in 1 \<le> offset
             \<and> (if Suc 0 < offset \<or> length ((replicate 4098 0)[0 := (0x41::byte)]) < Suc 0 + len
                 then copyTokenStep straddleBuf 0 4 ((replicate 4098 0)[0 := 0x41]) (Suc 0) = Panic
                 else (\<exists>ubuf'. copyTokenStep straddleBuf 0 4 ((replicate 4098 0)[0 := 0x41]) (Suc 0)
                                  = Return (ubuf', Suc 0 + len)
                         \<and> length ubuf' = length ((replicate 4098 0)[0 := (0x41::byte)])
                         \<and> take (Suc 0 + len) ubuf'
                             = lzCopy (take (Suc 0) ((replicate 4098 0)[0 := 0x41])) offset len
                         \<and> drop (Suc 0 + len) ubuf'
                             = drop (Suc 0 + len) ((replicate 4098 0)[0 := 0x41]))))"
proof -
  have a: "Suc 0 \<le> length ((replicate 4098 0)[0 := (0x41::byte)])"
    "length ((replicate 4098 0)[0 := (0x41::byte)]) = VBABuffSize"
    "4 + 2 \<le> length straddleBuf"
    by (simp_all add: VBABuffSize_def straddleBuf_simps)
  from a C3_copy_token_window [OF a] show ?thesis by blast
qed

text \<open>A compressed chunk of declared size 5 whose first item is a copy token.\<close>

definition leadingTokenBuf :: "byte list" where
  "leadingTokenBuf = [0x02, 0xB0, 0x01, 0x00, 0x00] @ replicate 4093 0"

definition leadingTokenState :: VBAWriter where
  "leadingTokenState =
     NewWriter\<lparr>compressedBuffer := leadingTokenBuf,
               cSize := 5, marker_cur := 12, marker_found := True\<rparr>"

lemma leadingTokenBuf_simps:
  "length leadingTokenBuf = 4098"
  "leadingTokenBuf ! 0 = 0x02" "leadingTokenBuf ! Suc 0 = 0xB0" "leadingTokenBuf ! 2 = 0x01"
  "leadingTokenBuf ! 3 = 0" "leadingTokenBuf ! 4 = 0"
  by (simp_all add: leadingTokenBuf_def)

lemma leadingTokenState_simps:
  "compressedBuffer leadingTokenState = leadingTokenBuf"
  "uncompressedBuffer leadingTokenState = replicate 4098 0"
  "cSize leadingTokenState = 5"
  "chunkHeader leadingTokenState = 0xB002"
  by (simp_all add: leadingTokenState_def NewWriter_def VBABuffSize_def chunkHeader_def Uint16_def
        leadingTokenBuf_simps)

text \<open>
  Counterexample to C3 as stated: the first item of the chunk is a copy token, its offset 1
  exceeds the 0 bytes produced, and the read at index -1 panics.
\<close>

theorem C3_leading_copy_token_counterexample:
  "tokenOffset (Uint16 (leadingTokenBuf ! 3) (leadingTokenBuf ! 4)) 0xF000 4 = 1
   \<and> uSize (leadingTokenState\<lparr>uSize := 0\<rparr>) = 0
   \<and> uncompressChunk leadingTokenState = Panic"
proof -
  have l: "2 \<le> length (compressedBuffer leadingTokenState)"
    by (simp add: leadingTokenState_simps leadingTokenBuf_simps)
  have s: "chunkSignature leadingTokenState = 3"
    by (simp add: leadingTokenState_simps chunkSignature_header)
  have f: "chunkFlag leadingTokenState \<noteq> 0"
    by (simp add: leadingTokenState_simps chunkFlag_def)
  have d: "declaredSize leadingTokenState = 5"
    by (simp add: leadingTokenState_simps declaredSize_def)
  have t: "copyTokenStep leadingTokenBuf 0 3 (replicate 4098 0) 0 = Panic"
    by (simp add: copyTokenStep_def copyTokenHelp_def Let_def tokenLength_def tokenOffset_def
          Uint16_def leadingTokenBuf_simps copyLoop_negative)
  have i: "itemLoop leadingTokenBuf 5 0 1 0 (3, replicate 4098 0, 0) = Panic"
    by (subst itemLoop_copy) (simp_all add: t)
  have c: "chunkLoop leadingTokenBuf 5 0 (2, replicate 4098 0, 0) = Panic"
    by (subst chunkLoop_step) (simp_all add: i leadingTokenBuf_simps)
  have o: "tokenOffset (Uint16 (leadingTokenBuf ! 3) (leadingTokenBuf ! 4)) 0xF000 4 = 1"
    by (simp add: tokenOffset_def Uint16_def leadingTokenBuf_simps)
  show ?thesis
    by (simp add: uncompressChunk_unfold [OF l s] f d leadingTokenState_simps c o)
qed

section \<open>A literal run followed by a copy token\<close>

lemma flag_bit_iff: "(drop_bit j (w :: byte) AND 1 = 0) = (\<not> bit w j)"
proof -
  have "drop_bit j w AND 1 = of_bool (odd (drop_bit j w))"
    by (simp add: and_one_eq mod_2_eq_odd)
  also have "\<dots> = of_bool (bit w j)"
    by (simp add: bit_iff_odd_drop_bit)
  finally show ?thesis by simp
qed

text \<open>The buffer \<open>ubuf\<close> with the bytes \<open>bs\<close> written from position \<open>us\<close> on.\<close>

definition putBytes :: "byte list \<Rightarrow> nat \<Rightarrow> byte list \<Rightarrow> byte list" where
  "putBytes ubuf us bs = take us ubuf @ bs @ drop (us + length bs) ubuf"

lemma putBytes_Nil [simp]: "putBytes ubuf us [] = ubuf"
  by (simp add: putBytes_def)

lemma putBytes_length [simp]:
  "us + length bs \<le> length ubuf \<Longrightarrow> length (putBytes ubuf us bs) = length ubuf"
  by (simp add: putBytes_def)

lemma putBytes_take [simp]:
  "us + length bs \<le> length ubuf \<Longrightarrow> take (us + length bs) (putBytes ubuf us bs) = take us ubuf @ bs"
  by (simp add: putBytes_def)

lemma putBytes_update:
  assumes "us + length bs < length ubuf"
  shows "(putBytes ubuf us bs)[us + length bs := x] = putBytes ubuf us (bs @ [x])"
proof -
  from assms have "drop (us + length bs) ubuf = ubuf ! (us + length bs) # drop (Suc (us + length bs)) ubuf"
    by (simp add: Cons_nth_drop_Suc)
  with assms show ?thesis
    by (simp add: putBytes_def list_update_append)
qed

lemma putBytes_putBytes:
  assumes "us + length as + length bs \<le> length ubuf"
  shows "putBytes (putBytes ubuf us as) (us + length as) bs = putBytes ubuf us (as @ bs)"
  using assms by (simp add: putBytes_def add_ac)


lemma itemLoop_literals:
  assumes "\<forall>j < k. \<not> bit fb (bi + j)" "bi + k \<le> 8" "cur + k \<le> cend" "cur + k \<le> length cbuf"
    "us + k \<le> length ubuf"
  shows "itemLoop cbuf cend cs fb bi (cur, ubuf, us)
       = itemLoop cbuf cend cs fb (bi + k) (cur + k, putBytes ubuf us (take k (drop cur cbuf)), us + k)"
  using assms
proof (induction k)
  case 0
  then show ?case by simp
next
  case (Suc k)
  from Suc.prems have p: "\<forall>j < k. \<not> bit fb (bi + j)" "bi + k \<le> 8" "cur + k \<le> cend"
    "cur + k \<le> length cbuf" "us + k \<le> length ubuf" by auto
  let ?bs = "take k (drop cur cbuf)"
  from Suc.prems have lb: "length ?bs = k" by simp
  from Suc.prems have z: "drop_bit (bi + k) fb AND 1 = 0" by (simp add: flag_bit_iff)
  from Suc.prems have c: "bi + k < 8" "cur + k < cend" "cur + k < length cbuf"
    "us + k < length ubuf" by auto
  have "itemLoop cbuf cend cs fb (bi + k) (cur + k, putBytes ubuf us ?bs, us + k)
      = itemLoop cbuf cend cs fb (bi + k + 1)
          (cur + k + 1, (putBytes ubuf us ?bs)[us + k := cbuf ! (cur + k)], us + k + 1)"
    using c lb by (subst itemLoop_literal [OF c(1,2) z]) simp
  also have "(putBytes ubuf us ?bs)[us + k := cbuf ! (cur + k)] = putBytes ubuf us (?bs @ [cbuf ! (cur + k)])"
    using putBytes_update [of us ?bs ubuf] c lb by simp
  also have "?bs @ [cbuf ! (cur + k)] = take (Suc k) (drop cur cbuf)"
    using c by (simp add: take_Suc_conv_app_nth)
  finally show ?case using Suc.IH [OF p] by simp
qed

lemma itemLoop_rest:
  "\<not> cur < cend \<Longrightarrow> bi \<le> 8 \<Longrightarrow>
   itemLoop cbuf cend cs fb bi (cur, ubuf, us) = Return (cur, ubuf, us)"
proof (induction "8 - bi" arbitrary: bi)
  case 0
  then show ?case by (simp add: itemLoop_done)
next
  case (Suc n)
  then have "bi < 8" "n = 8 - (bi + 1)" "bi + 1 \<le> 8" by auto
  with Suc show ?case by (simp add: itemLoop_skip)
qed

text \<open>
  The token groups of a literal run followed by one copy token, as the data model
  describes them: each full group is the flag byte 0 and eight literals; the last group
  has a flag byte whose bit for the item after the remaining literals is 1, the remaining
  literals and the two bytes of the token.
\<close>

fun litRunGroups :: "byte list \<Rightarrow> byte list \<Rightarrow> byte list" where
  "litRunGroups lits tok =
     (if 8 \<le> length lits then 0 # take 8 lits @ litRunGroups (drop 8 lits) tok
      else push_bit (length lits) 1 # lits @ tok)"

declare litRunGroups.simps [simp del]

lemma flag_push_bit: "k < 8 \<Longrightarrow> bit (push_bit k 1 :: byte) j = (j = k)"
  by (auto simp: bit_simps)

lemma flag_two_power: "k < 8 \<Longrightarrow> bit (2 ^ k :: byte) j = (j = k)"
  by (auto simp: bit_simps)

lemma litRunGroups_length:
  "length (litRunGroups lits tok) = length lits div 8 + 1 + length lits + length tok"
proof (induction lits tok rule: litRunGroups.induct)
  case (1 lits tok)
  show ?case
  proof (cases "8 \<le> length lits")
    case True
    from "1.IH" [OF True] True show ?thesis
      by (subst litRunGroups.simps) (simp add: le_div_geq [of 8 "length lits"] min_def)
  next
    case False
    then show ?thesis by (subst litRunGroups.simps) simp
  qed
qed

text \<open>The bytes \<open>enc\<close> stand in the buffer from position \<open>cur\<close> on.\<close>

definition bytesAt :: "byte list \<Rightarrow> nat \<Rightarrow> byte list \<Rightarrow> bool" where
  "bytesAt cbuf cur enc = (cur + length enc \<le> length cbuf \<and> take (length enc) (drop cur cbuf) = enc)"

lemma bytesAt_Cons:
  "bytesAt cbuf cur (x # enc) = (cur < length cbuf \<and> cbuf ! cur = x \<and> bytesAt cbuf (cur + 1) enc)"
proof (cases "cur < length cbuf")
  case True
  then have "drop cur cbuf = cbuf ! cur # drop (Suc cur) cbuf"
    by (simp add: Cons_nth_drop_Suc)
  with True show ?thesis by (auto simp: bytesAt_def)
next
  case False
  then show ?thesis by (simp add: bytesAt_def)
qed

lemma bytesAt_append:
  "bytesAt cbuf cur (as @ bs) = (bytesAt cbuf cur as \<and> bytesAt cbuf (cur + length as) bs)"
proof (induction as arbitrary: cur)
  case Nil
  then show ?case by (auto simp: bytesAt_def)
next
  case (Cons a as)
  show ?case
    using Cons.IH [of "cur + 1"] by (auto simp: bytesAt_Cons)
qed

lemma bytesAt_take: "bytesAt cbuf cur enc \<Longrightarrow> take (length enc) (drop cur cbuf) = enc"
  by (simp add: bytesAt_def)

lemma chunkLoop_litRun:
  assumes "bytesAt cbuf cur (litRunGroups lits [t0, t1])"
    and "cend = cur + length (litRunGroups lits [t0, t1])"
    and "length ubuf = VBABuffSize"
    and "b = bitCountOf (us + length lits)"
    and "len = unat (Uint16 t0 t1) mod 2 ^ (16 - b) + 3"
    and "offset = unat (Uint16 t0 t1) div 2 ^ (16 - b) + 1"
    and "offset \<le> us + length lits"
    and "us + length lits + len \<le> length ubuf"
  shows "\<exists>ubuf'. chunkLoop cbuf cend 0 (cur, ubuf, us) = Return (cend, ubuf', us + length lits + len)
           \<and> length ubuf' = length ubuf
           \<and> take (us + length lits + len) ubuf' = lzCopy (take us ubuf @ lits) offset len"
  using assms
proof (induction lits "[t0, t1]" arbitrary: cur ubuf us rule: litRunGroups.induct)
  case (1 lits)
  show ?case
  proof (cases "8 \<le> length lits")
    case True
    let ?rest = "litRunGroups (drop 8 lits) [t0, t1]"
    have enc: "litRunGroups lits [t0, t1] = 0 # take 8 lits @ ?rest"
      using True by (subst litRunGroups.simps) simp
    from True have l8: "length (take 8 lits) = 8" and m8: "min (length lits) 8 = 8" by simp_all
    from "1.prems"(1) True have at: "cur < length cbuf" "cbuf ! cur = 0"
      "bytesAt cbuf (cur + 1) (take 8 lits)" "bytesAt cbuf (cur + 9) ?rest"
      by (auto simp: enc bytesAt_Cons bytesAt_append min_def add.commute [of 9 cur] split: if_splits)
    from "1.prems"(2) have ce: "cend = cur + 9 + length ?rest"
      by (simp add: enc m8)
    have rl: "0 < length ?rest" by (simp add: litRunGroups_length)
    let ?u = "putBytes ubuf us (take 8 lits)"
    from True "1.prems"(8) have fit: "us + 8 \<le> length ubuf" by simp
    have t8: "take 8 (drop (cur + 1) cbuf) = take 8 lits"
      using bytesAt_take [OF at(3)] by (simp add: m8)
    have "itemLoop cbuf cend 0 0 0 (cur + 1, ubuf, us)
        = itemLoop cbuf cend 0 0 (0 + 8) (cur + 1 + 8, putBytes ubuf us (take 8 (drop (cur + 1) cbuf)), us + 8)"
      using at(3) ce fit m8 by (intro itemLoop_literals) (simp_all add: bytesAt_def)
    also have "\<dots> = Return (cur + 9, ?u, us + 8)"
      using t8 by (simp add: itemLoop_done)
    finally have i: "itemLoop cbuf cend 0 (cbuf ! cur) 0 (cur + 1, ubuf, us) = Return (cur + 9, ?u, us + 8)"
      by (simp add: at(2))
    from ce rl have lt: "cur < cend" by simp
    have step: "chunkLoop cbuf cend 0 (cur, ubuf, us) = chunkLoop cbuf cend 0 (cur + 9, ?u, us + 8)"
      using at(1) lt i by (subst chunkLoop_step) simp_all
    have lu: "length ?u = VBABuffSize"
      using fit "1.prems"(3) by (simp add: m8)
    from True have ll: "us + 8 + length (drop 8 lits) = us + length lits" by simp
    have tu: "take (us + 8) ?u = take us ubuf @ take 8 lits"
      using putBytes_take [of us "take 8 lits" ubuf] fit by (simp add: m8)
    have a4: "b = bitCountOf (us + 8 + length (drop 8 lits))"
      and a7: "offset \<le> us + 8 + length (drop 8 lits)"
      and a8: "us + 8 + length (drop 8 lits) + len \<le> length ?u"
      using "1.prems"(4,7,8) ll lu "1.prems"(3) by simp_all
    from "1.hyps" [OF True at(4) ce lu a4 "1.prems"(5,6) a7 a8]
    obtain ubuf' where
      r: "chunkLoop cbuf cend 0 (cur + 9, ?u, us + 8)
            = Return (cend, ubuf', us + 8 + length (drop 8 lits) + len)"
      and l: "length ubuf' = length ?u"
      and t: "take (us + 8 + length (drop 8 lits) + len) ubuf'
            = lzCopy (take (us + 8) ?u @ drop 8 lits) offset len"
      by blast
    from step r l t lu "1.prems"(3) tu ll show ?thesis by simp
  next
    case False
    let ?k = "length lits"
    let ?fb = "push_bit ?k 1 :: byte"
    from False have k: "?k < 8" by simp
    have enc: "litRunGroups lits [t0, t1] = ?fb # lits @ [t0, t1]"
      using False by (subst litRunGroups.simps) simp
    from "1.prems"(1) have at: "cur < length cbuf" "cbuf ! cur = ?fb"
      "bytesAt cbuf (cur + 1) lits" "bytesAt cbuf (cur + 1 + ?k) [t0, t1]"
      by (simp_all add: enc bytesAt_Cons bytesAt_append)
    from at(4) have tok: "cbuf ! (cur + 1 + ?k) = t0" "cbuf ! (cur + 1 + ?k + 1) = t1"
      "cur + 1 + ?k + 2 \<le> length cbuf"
      by (simp_all add: bytesAt_Cons)
    from "1.prems"(2) have ce: "cend = cur + 1 + ?k + 2" by (simp add: enc)
    let ?u = "putBytes ubuf us lits"
    from "1.prems"(8) have fit: "us + ?k \<le> length ubuf" by simp
    have tl: "take ?k (drop (cur + 1) cbuf) = lits"
      using bytesAt_take [OF at(3)] .
    have "itemLoop cbuf cend 0 ?fb 0 (cur + 1, ubuf, us)
        = itemLoop cbuf cend 0 ?fb (0 + ?k) (cur + 1 + ?k, putBytes ubuf us (take ?k (drop (cur + 1) cbuf)), us + ?k)"
      using k at(3) ce fit by (intro itemLoop_literals) (simp_all add: bytesAt_def flag_two_power)
    with tl have i1: "itemLoop cbuf cend 0 ?fb 0 (cur + 1, ubuf, us)
        = itemLoop cbuf cend 0 ?fb ?k (cur + 1 + ?k, ?u, us + ?k)"
      by simp
    have lu: "length ?u = length ubuf" using fit by simp
    have tu: "take (us + ?k) ?u = take us ubuf @ lits"
      using putBytes_take [of us lits ubuf] fit by simp
    have o: "1 \<le> offset" by (simp add: "1.prems"(6))
    from copyLoop_Return [OF o "1.prems"(7), of len ?u] "1.prems"(8) lu
    obtain ubuf' where
      cl: "copyLoop (int (us + ?k) - int offset) (int (us + ?k) - int offset + int len) ?u (us + ?k)
             = Return (ubuf', us + ?k + len)"
      and l: "length ubuf' = length ?u"
      and t: "take (us + ?k + len) ubuf' = lzCopy (take (us + ?k) ?u) offset len"
      by auto
    have us_le: "us + ?k \<le> VBABuffSize"
      using fit "1.prems"(3) by simp
    have cs: "copyTokenStep cbuf 0 (cur + 1 + ?k) ?u (us + ?k) = Return (ubuf', us + ?k + len)"
      using copyTokenStep_eq [OF _ us_le tok(3), of 0 ?u] cl tok(1,2)
      by (simp add: Let_def "1.prems"(4,5,6))
    have bitk: "drop_bit ?k ?fb AND 1 \<noteq> 0"
      using k by (simp add: flag_bit_iff flag_two_power)
    from ce have lt: "cur < cend" "cur + 1 + ?k < cend" "\<not> cur + 1 + ?k + 2 < cend" by simp_all
    have i2: "itemLoop cbuf cend 0 ?fb ?k (cur + 1 + ?k, ?u, us + ?k)
        = itemLoop cbuf cend 0 ?fb (?k + 1) (cur + 1 + ?k + 2, ubuf', us + ?k + len)"
      using cs by (subst itemLoop_copy [OF k lt(2) bitk]) simp
    have i3: "itemLoop cbuf cend 0 ?fb (?k + 1) (cur + 1 + ?k + 2, ubuf', us + ?k + len)
        = Return (cur + 1 + ?k + 2, ubuf', us + ?k + len)"
      using k by (intro itemLoop_rest [OF lt(3)]) simp
    have "itemLoop cbuf cend 0 (cbuf ! cur) 0 (cur + 1, ubuf, us) = Return (cend, ubuf', us + ?k + len)"
      using i1 i2 i3 at(2) ce by simp
    then have "chunkLoop cbuf cend 0 (cur, ubuf, us) = chunkLoop cbuf cend 0 (cend, ubuf', us + ?k + len)"
      using at(1) lt(1) by (subst chunkLoop_step) simp_all
    also have "\<dots> = Return (cend, ubuf', us + ?k + len)"
      by (simp add: chunkLoop_stop)
    finally show ?thesis using l lu t tu by simp
  qed
qed

lemma lzCopy_length: "length (lzCopy out offset n) = length out + n"
  by (induction n arbitrary: out) simp_all

lemma lzCopy_prefix: "take (length out) (lzCopy out offset n) = out"
proof (induction n arbitrary: out)
  case 0
  then show ?case by simp
next
  case (Suc n)
  have "take (length out) (lzCopy (out @ [out ! (length out - offset)]) offset n)
      = take (length out) (take (length (out @ [out ! (length out - offset)]))
          (lzCopy (out @ [out ! (length out - offset)]) offset n))"
    by (simp add: min_def)
  also have "\<dots> = out"
    by (simp only: Suc.IH) simp
  finally show ?case by simp
qed

lemma lzCopy_nth_old: "i < length out \<Longrightarrow> lzCopy out offset n ! i = out ! i"
  using lzCopy_prefix [of out offset n]
  by (metis nth_take)

lemma lzCopy_nth:
  assumes "1 \<le> offset" "offset \<le> length out" "length out \<le> i" "i < length out + n"
  shows "lzCopy out offset n ! i = lzCopy out offset n ! (i - offset)"
  using assms
proof (induction n arbitrary: out)
  case 0
  then show ?case by simp
next
  case (Suc n)
  let ?o = "out @ [out ! (length out - offset)]"
  show ?case
  proof (cases "i = length out")
    case True
    have "lzCopy ?o offset n ! i = ?o ! i"
      using True by (intro lzCopy_nth_old) simp
    moreover have "lzCopy ?o offset n ! (i - offset) = ?o ! (i - offset)"
      using True Suc.prems by (intro lzCopy_nth_old) simp
    moreover have "?o ! i = ?o ! (i - offset)"
      using True Suc.prems by (simp add: nth_append)
    ultimately show ?thesis by simp
  next
    case False
    with Suc.prems have "offset \<le> length ?o" "length ?o \<le> i" "i < length ?o + n" by simp_all
    from Suc.IH [OF Suc.prems(1) this] show ?thesis by simp
  qed
qed

lemma lzCopy_replicate:
  "0 < k \<Longrightarrow> lzCopy (replicate k x) 1 n = replicate (k + n) x"
proof (induction n arbitrary: k)
  case 0
  then show ?case by simp
next
  case (Suc n)
  have "replicate k x @ [x] = replicate (Suc k) x"
    by (simp add: replicate_append_same)
  with Suc.IH [of "Suc k"] Suc.prems show ?case by simp
qed

text \<open>
  Claim C5. For a compressedFlag 1 chunk that consists of a literal run followed by one
  copy token (whose offset reaches no further back than the run, and whose output fits the
  buffer), decoding processes the whole chunk and the decoded output is the literal run
  followed by \<open>len\<close> bytes copied one at a time from \<open>offset\<close> positions back, bytes
  written by the same copy being valid sources: every copied byte equals the byte
  \<open>offset\<close> positions before it in the output. In particular offset 1 and length 10 after
  the single literal \<open>x\<close> give eleven bytes \<open>x\<close>: the literal and its 10 repetitions.
\<close>

theorem C5_literal_run_then_copy_token:
  assumes "length (compressedBuffer vba) = VBABuffSize"
    and "length (uncompressedBuffer vba) = VBABuffSize"
    and "chunkSignature vba = 3" and "chunkFlag vba \<noteq> 0"
    and "bytesAt (compressedBuffer vba) 2 (litRunGroups lits [t0, t1])"
    and "declaredSize vba = 2 + length (litRunGroups lits [t0, t1])"
    and "declaredSize vba \<le> cSize vba"
    and "b = bitCountOf (length lits)"
    and "len = unat (Uint16 t0 t1) mod 2 ^ (16 - b) + 3"
    and "offset = unat (Uint16 t0 t1) div 2 ^ (16 - b) + 1"
    and "offset \<le> length lits" and "length lits + len \<le> VBABuffSize"
  shows "(\<exists>vba'. uncompressChunk vba = Return (declaredSize vba, None, vba')
            \<and> uSize vba' = length lits + len
            \<and> take (uSize vba') (uncompressedBuffer vba') = lzCopy lits offset len)
       \<and> take (length lits) (lzCopy lits offset len) = lits
       \<and> length (lzCopy lits offset len) = length lits + len
       \<and> (\<forall>i. length lits \<le> i \<and> i < length lits + len \<longrightarrow>
              lzCopy lits offset len ! i = lzCopy lits offset len ! (i - offset))
       \<and> lzCopy [x] 1 10 = replicate 11 x"
proof -
  from assms(1) have l2: "2 \<le> length (compressedBuffer vba)" by (simp add: VBABuffSize_def)
  have o: "1 \<le> offset" by (simp add: assms(10))
  have a4: "b = bitCountOf (0 + length lits)" and a7: "offset \<le> 0 + length lits"
    and a8: "0 + length lits + len \<le> length (uncompressedBuffer vba)"
    using assms(2,8,11,12) by simp_all
  from chunkLoop_litRun [OF assms(5,6,2) a4 assms(9,10) a7 a8]
  obtain ubuf' where
    c: "chunkLoop (compressedBuffer vba) (declaredSize vba) 0 (2, uncompressedBuffer vba, 0)
          = Return (declaredSize vba, ubuf', length lits + len)"
    and t: "take (length lits + len) ubuf' = lzCopy lits offset len"
    by auto
  have "uncompressChunk vba
      = Return (declaredSize vba, None, vba\<lparr>uncompressedBuffer := ubuf', uSize := length lits + len\<rparr>)"
    using assms(4,7) c by (simp add: uncompressChunk_unfold [OF l2 assms(3)])
  with t have "\<exists>vba'. uncompressChunk vba = Return (declaredSize vba, None, vba')
            \<and> uSize vba' = length lits + len
            \<and> take (uSize vba') (uncompressedBuffer vba') = lzCopy lits offset len"
    by simp
  moreover have "lzCopy [x] 1 10 = replicate 11 x"
    using lzCopy_replicate [of 1 x 10] by simp
  ultimately show ?thesis
    using lzCopy_prefix [of lits offset len] lzCopy_length [of lits offset len]
      lzCopy_nth [OF o assms(11), of _ len]
    by simp
qed

text \<open>
  A writer whose compressed buffer holds a chunk of 6 bytes: header, flag byte 2, the
  literal A and the copy token 7 (offset 1, length 10 at this position).
\<close>

definition runBuf :: "byte list" where
  "runBuf = [0x03, 0xB0, 0x02, 0x41, 0x07, 0x00] @ replicate 4092 0"

definition runState :: VBAWriter where
  "runState = NewWriter\<lparr>compressedBuffer := runBuf, cSize := 6, marker_cur := 12,
                        marker_found := True\<rparr>"

lemma runState_simps:
  "compressedBuffer runState = runBuf"
  "length runBuf = VBABuffSize"
  "length (uncompressedBuffer runState) = VBABuffSize"
  "cSize runState = 6"
  "chunkHeader runState = 0xB003"
  by (simp_all add: runState_def runBuf_def NewWriter_def VBABuffSize_def chunkHeader_def Uint16_def)

theorem C5_literal_run_then_copy_token_witness:
  "length (compressedBuffer runState) = VBABuffSize
   \<and> length (uncompressedBuffer runState) = VBABuffSize
   \<and> chunkSignature runState = 3 \<and> chunkFlag runState \<noteq> 0
   \<and> bytesAt (compressedBuffer runState) 2 (litRunGroups [0x41] [0x07, 0x00])
   \<and> declaredSize runState = 2 + length (litRunGroups [0x41] [0x07, 0x00])
   \<and> declaredSize runState \<le> cSize runState
   \<and> 4 = bitCountOf (length [0x41 :: byte])
   \<and> 10 = unat (Uint16 0x07 0x00) mod 2 ^ (16 - 4) + 3
   \<and> 1 = unat (Uint16 0x07 0x00) div 2 ^ (16 - 4) + 1
   \<and> 1 \<le> length [0x41 :: byte] \<and> length [0x41 :: byte] + 10 \<le> VBABuffSize
   \<and> (\<exists>vba'. uncompressChunk runState = Return (declaredSize runState, None, vba')
          \<and> uSize vba' = 11
          \<and> take (uSize vba') (uncompressedBuffer vba') = replicate 11 0x41)"
proof -
  have e: "litRunGroups [0x41] [0x07, 0x00] = [0x02, 0x41, 0x07, 0x00]"
    by (subst litRunGroups.simps) simp
  have a: "length (compressedBuffer runState) = VBABuffSize"
    "length (uncompressedBuffer runState) = VBABuffSize"
    "chunkSignature runState = 3" "chunkFlag runState \<noteq> 0"
    "bytesAt (compressedBuffer runState) 2 (litRunGroups [0x41] [0x07, 0x00])"
    "declaredSize runState = 2 + length (litRunGroups [0x41] [0x07, 0x00])"
    "declaredSize runState \<le> cSize runState"
    by (simp_all add: runState_simps chunkSignature_header chunkFlag_def declaredSize_def e)
      (simp add: bytesAt_def runBuf_def)
  have b: "4 = bitCountOf (length [0x41 :: byte])"
    "10 = unat (Uint16 0x07 0x00) mod 2 ^ (16 - 4) + 3"
    "1 = unat (Uint16 0x07 0x00) div 2 ^ (16 - 4) + 1"
    "1 \<le> length [0x41 :: byte]" "length [0x41 :: byte] + 10 \<le> VBABuffSize"
    by (simp_all add: bitCountOf_def Uint16_def VBABuffSize_def)
  from C5_literal_run_then_copy_token [OF a b, of "0x41"]
  have "\<exists>vba'. uncompressChunk runState = Return (declaredSize runState, None, vba')
          \<and> uSize vba' = 11
          \<and> take (uSize vba') (uncompressedBuffer vba') = replicate 11 0x41"
    by auto
  with a b show ?thesis by blast
qed

section \<open>Carving the signature\<close>

lemma marker_nth:
  "marker ! 0 = 1" "marker ! 3 = 0" "marker ! 4 = 0x41" "marker ! 5 = 0x74" "marker ! 6 = 0x74"
  "marker ! 7 = 0x72" "marker ! 8 = 0x69" "marker ! 9 = 0x62" "marker ! 10 = 0x75"
  "marker ! 11 = 0x74" "length marker = 12" "mlen = 12"
  by (simp_all add: marker_def mlen_def)

text \<open>
  While the marker has not been found, the carver keeps \<open>cSize = marker_cur - 1\<close> (0 at the
  start) and touches nothing but the first 11 bytes of the compressed buffer and its two
  counters. \<open>carving vba0 vba\<close>: \<open>vba\<close> is such a state, reached from \<open>vba0\<close>.
\<close>

definition carving :: "VBAWriter \<Rightarrow> VBAWriter \<Rightarrow> bool" where
  "carving vba0 vba =
     (\<not> marker_found vba \<and> marker_cur vba < 12 \<and> cSize vba = marker_cur vba - 1
      \<and> length (compressedBuffer vba) = VBABuffSize
      \<and> length (compressedBuffer vba0) = VBABuffSize
      \<and> drop 11 (compressedBuffer vba) = drop 11 (compressedBuffer vba0)
      \<and> uncompressedBuffer vba = uncompressedBuffer vba0 \<and> uSize vba = uSize vba0)"

lemma drop_update_below: "i < n \<Longrightarrow> drop n (xs[i := x]) = drop n xs"
  by (simp add: drop_update_cancel)

lemma carvStep_carving:
  assumes "carving vba0 vba"
  shows "\<exists>vba1. carvStep vba b = Return vba1
     \<and> (marker_cur vba1 = 12 \<or> carving vba0 vba1)
     \<and> (marker_cur vba1 = 12 \<longrightarrow> marker_cur vba = 11 \<and> b = marker ! 11 \<and> cSize vba1 = 11
          \<and> \<not> marker_found vba1
          \<and> compressedBuffer vba1 = (compressedBuffer vba)[10 := b]
          \<and> uncompressedBuffer vba1 = uncompressedBuffer vba0 \<and> uSize vba1 = uSize vba0)"
proof -
  from assms have c: "\<not> marker_found vba" "marker_cur vba < 12" "cSize vba = marker_cur vba - 1"
    "length (compressedBuffer vba) = VBABuffSize" "length (compressedBuffer vba0) = VBABuffSize"
    "drop 11 (compressedBuffer vba) = drop 11 (compressedBuffer vba0)"
    "uncompressedBuffer vba = uncompressedBuffer vba0" "uSize vba = uSize vba0"
    by (simp_all add: carving_def)
  from c(2,3,4) have inb: "\<not> length (compressedBuffer vba) \<le> cSize vba" "cSize vba < 11"
    by (simp_all add: VBABuffSize_def)
  show ?thesis
  proof (cases "marker_cur vba = 1 \<or> marker_cur vba = 2")
    case True
    with c inb show ?thesis
      by (auto simp: carvStep_def carving_def drop_update_below)
  next
    case False
    show ?thesis
    proof (cases "b = marker ! marker_cur vba")
      case m: True
      show ?thesis
      proof (cases "marker_cur vba = 11")
        case True
        with c inb m False show ?thesis
          by (simp add: carvStep_def Let_def marker_nth)
      next
        case n11: False
        with c inb m False show ?thesis
          by (auto simp: carvStep_def Let_def marker_nth carving_def drop_update_below)
      qed
    next
      case nm: False
      with c inb False show ?thesis
        by (auto simp: carvStep_def Let_def marker_nth carving_def)
    qed
  qed
qed

text \<open>
  \<open>carved vba hist\<close>: after the input bytes \<open>hist\<close>, the last \<open>marker_cur\<close> bytes of the
  input begin with the byte 1 and the compressed buffer holds the \<open>cSize\<close> bytes after it.
\<close>

definition carved :: "VBAWriter \<Rightarrow> byte list \<Rightarrow> bool" where
  "carved vba hist =
     (marker_cur vba \<le> length hist
      \<and> (1 \<le> marker_cur vba \<longrightarrow> hist ! (length hist - marker_cur vba) = 1)
      \<and> (\<forall>i. 3 \<le> i \<and> i < marker_cur vba \<longrightarrow>
             hist ! (length hist - marker_cur vba + i) = marker ! i)
      \<and> take (cSize vba) (compressedBuffer vba) = drop (length hist - cSize vba) hist)"

lemma take_update_last:
  "n < length xs \<Longrightarrow> take (Suc n) (xs[n := x]) = take n xs @ [x]"
  by (simp add: take_Suc_conv_app_nth)

lemma carvStep_carved:
  assumes c: "carving vba0 vba" and h: "carved vba hist" and s: "carvStep vba b = Return vba1"
  shows "carved vba1 (hist @ [b])"
proof -
  from c have k: "marker_cur vba < 12" "cSize vba = marker_cur vba - 1"
    "length (compressedBuffer vba) = VBABuffSize"
    by (simp_all add: carving_def)
  from h have g: "marker_cur vba \<le> length hist"
    "1 \<le> marker_cur vba \<longrightarrow> hist ! (length hist - marker_cur vba) = 1"
    "take (cSize vba) (compressedBuffer vba) = drop (length hist - cSize vba) hist"
    "\<And>i. 3 \<le> i \<Longrightarrow> i < marker_cur vba \<Longrightarrow>
       hist ! (length hist - marker_cur vba + i) = marker ! i"
    unfolding carved_def by blast+
  from k have inb: "cSize vba < length (compressedBuffer vba)" by (simp add: VBABuffSize_def)
  from k g have cl: "cSize vba \<le> length hist" by simp
  have grow: "take (Suc (cSize vba)) ((compressedBuffer vba)[cSize vba := b])
      = drop (length hist - cSize vba) hist @ [b]"
    using take_update_last [OF inb] g(3) by simp
  have old: "1 \<le> marker_cur vba \<Longrightarrow> (hist @ [b]) ! (length hist - marker_cur vba) = 1"
    using g(1,2) by (auto simp: nth_append)
  have pat: "(hist @ [b]) ! (length hist - marker_cur vba + i) = marker ! i"
    if "3 \<le> i" "i < marker_cur vba + 1" "3 \<le> marker_cur vba \<longrightarrow> b = marker ! marker_cur vba" for i
  proof (cases "i = marker_cur vba")
    case True
    with that g(1) show ?thesis by (simp add: nth_append)
  next
    case False
    with that have lt: "i < marker_cur vba" by simp
    with g(1) have "length hist - marker_cur vba + i < length hist" by arith
    with g(4) [OF that(1) lt] show ?thesis by (simp add: nth_append)
  qed
  show ?thesis
  proof (cases "marker_cur vba = 1 \<or> marker_cur vba = 2")
    case True
    with s inb have v: "vba1 = vba\<lparr>compressedBuffer := (compressedBuffer vba)[cSize vba := b],
                          marker_cur := marker_cur vba + 1, cSize := cSize vba + 1\<rparr>"
      by (simp add: carvStep_def)
    from True g(1,2,3) cl grow old pat show ?thesis
      by (auto simp: v carved_def Suc_diff_le)
  next
    case False
    show ?thesis
    proof (cases "b = marker ! marker_cur vba")
      case m: True
      show ?thesis
      proof (cases "marker_cur vba = 0")
        case True
        with s inb m k have v: "vba1 = vba\<lparr>compressedBuffer := (compressedBuffer vba)[cSize vba := b],
                          marker_cur := 1\<rparr>"
          by (simp add: carvStep_def Let_def marker_nth)
        from True m k show ?thesis
          by (simp add: v carved_def marker_nth)
      next
        case nz: False
        with s inb m k False have v: "vba1 = vba\<lparr>compressedBuffer := (compressedBuffer vba)[cSize vba := b],
                          marker_cur := marker_cur vba + 1, cSize := cSize vba + 1\<rparr>"
          by (simp add: carvStep_def Let_def marker_nth)
        from nz False m g(1,2,3) cl grow old pat show ?thesis
          by (auto simp: v carved_def Suc_diff_le)
      qed
    next
      case nm: False
      with s False k have v: "vba1 = vba\<lparr>marker_cur := 0, cSize := 0\<rparr>"
        by (simp add: carvStep_def Let_def marker_nth)
      show ?thesis by (simp add: v carved_def)
    qed
  qed
qed

text \<open>The state in which \<open>carvVBA\<close> confirms the signature, after the input \<open>hist\<close>.\<close>

definition confirmed :: "VBAWriter \<Rightarrow> VBAWriter \<Rightarrow> byte list \<Rightarrow> bool" where
  "confirmed vba0 vba hist =
     (marker_found vba \<and> marker_cur vba = 12 \<and> cSize vba = 11
      \<and> 12 \<le> length hist \<and> hist ! (length hist - 12) = 1
      \<and> take 9 (drop (length hist - 9) hist) = drop 3 marker
      \<and> take 11 (compressedBuffer vba) = drop (length hist - 11) hist
      \<and> length (compressedBuffer vba) = VBABuffSize
      \<and> drop 11 (compressedBuffer vba) = drop 11 (compressedBuffer vba0)
      \<and> uncompressedBuffer vba = uncompressedBuffer vba0 \<and> uSize vba = uSize vba0)"


lemma carved_confirmed:
  assumes h: "carved vba hist" and c: "marker_cur vba = 12" "cSize vba = 11"
  shows "12 \<le> length hist \<and> hist ! (length hist - 12) = 1
       \<and> take 9 (drop (length hist - 9) hist) = drop 3 marker
       \<and> take 11 (compressedBuffer vba) = drop (length hist - 11) hist"
proof -
  from h c have g: "12 \<le> length hist" "hist ! (length hist - 12) = 1"
    "take 11 (compressedBuffer vba) = drop (length hist - 11) hist"
    "\<And>i. 3 \<le> i \<Longrightarrow> i < 12 \<Longrightarrow> hist ! (length hist - 12 + i) = marker ! i"
    unfolding carved_def by auto
  have "take 9 (drop (length hist - 9) hist) = drop 3 marker"
  proof (rule nth_equalityI)
    show "length (take 9 (drop (length hist - 9) hist)) = length (drop 3 marker)"
      using g(1) by (simp add: marker_nth)
  next
    fix i assume "i < length (take 9 (drop (length hist - 9) hist))"
    with g(1) have i: "i < 9" by simp
    with g(1) g(4) [of "i + 3"] show "take 9 (drop (length hist - 9) hist) ! i = drop 3 marker ! i"
      by (simp add: marker_nth add.commute)
  qed
  with g(1,2,3) show ?thesis by (simp add: marker_nth)
qed

lemma carvLoop_carving:
  assumes "carving vba0 vba" and "carved vba hist"
  shows "(\<exists>vba'. carvLoop i buff vba = Return (0, False, vba')
            \<and> carving vba0 vba' \<and> carved vba' (hist @ buff))
       \<or> (\<exists>off vba'. carvLoop i buff vba = Return (off, True, vba')
            \<and> i < off \<and> off \<le> i + length buff
            \<and> confirmed vba0 vba' (hist @ take (off - i) buff))"
  using assms
proof (induction buff arbitrary: i vba hist)
  case Nil
  then show ?case by simp
next
  case (Cons b buff)
  from carvStep_carving [OF Cons.prems(1), of b] obtain vba1 where
    s: "carvStep vba b = Return vba1"
    and d: "marker_cur vba1 = 12 \<or> carving vba0 vba1"
    and f: "marker_cur vba1 = 12 \<longrightarrow> marker_cur vba = 11 \<and> b = marker ! 11 \<and> cSize vba1 = 11
          \<and> \<not> marker_found vba1
          \<and> compressedBuffer vba1 = (compressedBuffer vba)[10 := b]
          \<and> uncompressedBuffer vba1 = uncompressedBuffer vba0 \<and> uSize vba1 = uSize vba0"
    by blast
  note h1 = carvStep_carved [OF Cons.prems(1,2) s]
  show ?case
  proof (cases "marker_cur vba1 = 12")
    case True
    from Cons.prems(1) have k: "length (compressedBuffer vba) = VBABuffSize"
      "drop 11 (compressedBuffer vba) = drop 11 (compressedBuffer vba0)"
      by (simp_all add: carving_def)
    from True f have g: "cSize vba1 = 11" "compressedBuffer vba1 = (compressedBuffer vba)[10 := b]"
      "uncompressedBuffer vba1 = uncompressedBuffer vba0" "uSize vba1 = uSize vba0"
      by simp_all
    have "confirmed vba0 (vba1\<lparr>marker_found := True\<rparr>) (hist @ [b])"
      using carved_confirmed [OF h1 True g(1)] True g k
      by (simp add: confirmed_def drop_update_below marker_nth)
    with s True show ?thesis by (simp add: marker_nth)
  next
    case False
    with d have c1: "carving vba0 vba1" by simp
    from False s have step: "carvLoop i (b # buff) vba = carvLoop (i + 1) buff vba1"
      by (simp add: marker_nth)
    from Cons.IH [OF c1 h1, of "i + 1"] show ?thesis
    proof
      assume "\<exists>vba'. carvLoop (i + 1) buff vba1 = Return (0, False, vba')
            \<and> carving vba0 vba' \<and> carved vba' ((hist @ [b]) @ buff)"
      with step show ?thesis by simp
    next
      assume "\<exists>off vba'. carvLoop (i + 1) buff vba1 = Return (off, True, vba')
            \<and> i + 1 < off \<and> off \<le> i + 1 + length buff
            \<and> confirmed vba0 vba' ((hist @ [b]) @ take (off - (i + 1)) buff)"
      then obtain off vba' where
        r: "carvLoop (i + 1) buff vba1 = Return (off, True, vba')"
        and o: "i + 1 < off" "off \<le> i + 1 + length buff"
        and cf: "confirmed vba0 vba' ((hist @ [b]) @ take (off - (i + 1)) buff)"
        by blast
      from o have "off - i = Suc (off - (i + 1))" by simp
      then have "take (off - i) (b # buff) = b # take (off - (i + 1)) buff"
        by simp
      with cf have "confirmed vba0 vba' (hist @ take (off - i) (b # buff))" by simp
      with step r o show ?thesis by simp
    qed
  qed
qed

section \<open>Sessions\<close>

text \<open>
  The calls of a session: the caller (\<open>io.Copy\<close> in \<open>DecompressFile\<close>, line 294) hands each
  block it has read to \<open>Write\<close> and stops at the first error. The result is the error, the
  writer and the sink.
\<close>

fun WriteAll ::
  "'w writer \<Rightarrow> VBAWriter \<Rightarrow> 'w \<Rightarrow> byte list list \<Rightarrow> (error option \<times> VBAWriter \<times> 'w) outcome" where
  "WriteAll wr vba sink [] = Return (None, vba, sink)"
| "WriteAll wr vba sink (b # bs) =
     (case Write wr vba sink b of
        Panic \<Rightarrow> Panic
      | Return (n, Some err, vba', sink') \<Rightarrow> Return (Some err, vba', sink')
      | Return (n, None, vba', sink') \<Rightarrow> WriteAll wr vba' sink' bs)"

text \<open>What a session shows to the outside: the error and the sink.\<close>

definition sessionOutput :: "(error option \<times> VBAWriter \<times> 'w) outcome \<Rightarrow> (error option \<times> 'w) outcome" where
  "sessionOutput r = (case r of Panic \<Rightarrow> Panic | Return (err, vba, sink) \<Rightarrow> Return (err, sink))"

text \<open>
  Two writers that are still carving and differ at most in the bytes of the compressed
  buffer that the next match will overwrite.
\<close>

definition alike :: "VBAWriter \<Rightarrow> VBAWriter \<Rightarrow> bool" where
  "alike v1 v2 =
     (\<not> marker_found v1 \<and> \<not> marker_found v2 \<and> marker_cur v1 = marker_cur v2
      \<and> marker_cur v1 < 12 \<and> cSize v1 = cSize v2 \<and> cSize v1 = marker_cur v1 - 1
      \<and> uSize v1 = uSize v2 \<and> uncompressedBuffer v1 = uncompressedBuffer v2
      \<and> length (compressedBuffer v1) = VBABuffSize \<and> length (compressedBuffer v2) = VBABuffSize
      \<and> take (cSize v1) (compressedBuffer v1) = take (cSize v1) (compressedBuffer v2)
      \<and> drop 11 (compressedBuffer v1) = drop 11 (compressedBuffer v2))"

lemma take_update_both:
  assumes "take n xs = take n ys" "n < length xs" "n < length ys"
  shows "take (Suc n) (xs[n := x]) = take (Suc n) (ys[n := x])"
  using assms by (simp add: take_update_last)

lemma carvStep_alike:
  assumes "alike v1 v2"
  shows "\<exists>w1 w2. carvStep v1 b = Return w1 \<and> carvStep v2 b = Return w2
           \<and> marker_cur w1 = marker_cur w2
           \<and> (if marker_cur w1 = 12 then w1 = w2 else alike w1 w2)"
proof -
  from assms have a: "\<not> marker_found v1" "\<not> marker_found v2" "marker_cur v2 = marker_cur v1"
    "marker_cur v1 < 12" "cSize v2 = cSize v1" "cSize v1 = marker_cur v1 - 1"
    "uSize v1 = uSize v2" "uncompressedBuffer v1 = uncompressedBuffer v2"
    "length (compressedBuffer v1) = VBABuffSize" "length (compressedBuffer v2) = VBABuffSize"
    "take (cSize v1) (compressedBuffer v1) = take (cSize v1) (compressedBuffer v2)"
    "drop 11 (compressedBuffer v1) = drop 11 (compressedBuffer v2)"
    unfolding alike_def by auto
  from a have inb: "cSize v1 < length (compressedBuffer v1)" "cSize v1 < length (compressedBuffer v2)"
    "cSize v1 < 11"
    by (simp_all add: VBABuffSize_def)
  note tk = take_update_both [OF a(11) inb(1,2), of b]
  have dr: "drop 11 ((compressedBuffer v1)[cSize v1 := b]) = drop 11 ((compressedBuffer v2)[cSize v1 := b])"
    using inb(3) a(12) by (simp add: drop_update_below)
  have full: "(compressedBuffer v1)[cSize v1 := b] = (compressedBuffer v2)[cSize v1 := b]"
    if "cSize v1 = 10"
  proof -
    from tk that have "take 11 ((compressedBuffer v1)[cSize v1 := b]) = take 11 ((compressedBuffer v2)[cSize v1 := b])"
      by simp
    with dr show ?thesis by (metis append_take_drop_id)
  qed
  show ?thesis
  proof (cases "marker_cur v1 = 1 \<or> marker_cur v1 = 2")
    case True
    with a inb tk dr show ?thesis
      by (auto simp: carvStep_def alike_def)
  next
    case False
    show ?thesis
    proof (cases "b = marker ! marker_cur v1")
      case m: True
      show ?thesis
      proof (cases "marker_cur v1 = 11")
        case True
        with a have "cSize v1 = 10" by simp
        from full [OF this] True a inb m False show ?thesis
          by (simp add: carvStep_def Let_def marker_nth)
      next
        case n11: False
        show ?thesis
        proof (cases "marker_cur v1 = 0")
          case True
          with a inb m False show ?thesis
            by (simp add: carvStep_def Let_def marker_nth alike_def drop_update_below)
        next
          case nz: False
          with n11 a inb m False tk dr show ?thesis
            by (auto simp: carvStep_def Let_def marker_nth alike_def)
        qed
      qed
    next
      case nm: False
      with a inb False show ?thesis
        by (auto simp: carvStep_def Let_def marker_nth alike_def)
    qed
  qed
qed

lemma carvLoop_found:
  "carvStep v b = Return w \<Longrightarrow> marker_cur w = 12 \<Longrightarrow>
   carvLoop i (b # buff) v = Return (i + 1, True, w\<lparr>marker_found := True\<rparr>)"
  by (simp add: marker_nth)

lemma carvLoop_continue:
  "carvStep v b = Return w \<Longrightarrow> marker_cur w \<noteq> 12 \<Longrightarrow>
   carvLoop i (b # buff) v = carvLoop (i + 1) buff w"
  by (simp add: marker_nth)

lemma carvLoop_alike:
  assumes "alike v1 v2"
  shows "(\<exists>w1 w2. carvLoop i buff v1 = Return (0, False, w1)
            \<and> carvLoop i buff v2 = Return (0, False, w2) \<and> alike w1 w2)
       \<or> (\<exists>off w. carvLoop i buff v1 = Return (off, True, w)
            \<and> carvLoop i buff v2 = Return (off, True, w))"
  using assms
proof (induction buff arbitrary: i v1 v2)
  case Nil
  have "carvLoop i [] v1 = Return (0, False, v1)" "carvLoop i [] v2 = Return (0, False, v2)"
    by simp_all
  with Nil show ?case by blast
next
  case (Cons b buff)
  from carvStep_alike [OF Cons.prems, of b] obtain w1 w2 where
    s: "carvStep v1 b = Return w1" "carvStep v2 b = Return w2" "marker_cur w1 = marker_cur w2"
    and d: "if marker_cur w1 = 12 then w1 = w2 else alike w1 w2"
    by blast
  show ?case
  proof (cases "marker_cur w1 = 12")
    case True
    with d have e: "w2 = w1" by simp
    from carvLoop_found [OF s(1) True, of i buff] carvLoop_found [OF s(2) [unfolded e] True, of i buff]
    show ?thesis by blast
  next
    case False
    with d have a: "alike w1 w2" by simp
    from False s(3) have f2: "marker_cur w2 \<noteq> 12" by simp
    from carvLoop_continue [OF s(1) False, of i buff] carvLoop_continue [OF s(2) f2, of i buff]
      Cons.IH [OF a, of "i + 1"]
    show ?thesis by simp
  qed
qed


lemma Write_carving:
  "\<not> marker_found vba \<Longrightarrow>
   Write wr vba sink b =
     (case carvLoop 0 b vba of
        Panic \<Rightarrow> Panic
      | Return (offset, hasVBA, vba1) \<Rightarrow>
          if \<not> hasVBA then Return (length b, None, vba1, sink)
          else WriteLoop wr b offset vba1 sink)"
  by (simp add: Write_def carvVBA_def)

lemma Write_alike:
  assumes "alike v1 v2"
  shows "(\<exists>w1 w2. Write wr v1 sink b = Return (length b, None, w1, sink)
            \<and> Write wr v2 sink b = Return (length b, None, w2, sink) \<and> alike w1 w2)
       \<or> Write wr v1 sink b = Write wr v2 sink b"
proof -
  from assms have nf: "\<not> marker_found v1" "\<not> marker_found v2"
    by (simp_all add: alike_def)
  from carvLoop_alike [OF assms, of 0 b] show ?thesis
  proof
    assume "\<exists>w1 w2. carvLoop 0 b v1 = Return (0, False, w1)
            \<and> carvLoop 0 b v2 = Return (0, False, w2) \<and> alike w1 w2"
    then obtain w1 w2 where c: "carvLoop 0 b v1 = Return (0, False, w1)"
      "carvLoop 0 b v2 = Return (0, False, w2)" and a: "alike w1 w2" by blast
    have "Write wr v1 sink b = Return (length b, None, w1, sink)"
      "Write wr v2 sink b = Return (length b, None, w2, sink)"
      by (simp_all add: Write_carving nf c)
    with a show ?thesis by blast
  next
    assume "\<exists>off w. carvLoop 0 b v1 = Return (off, True, w)
            \<and> carvLoop 0 b v2 = Return (off, True, w)"
    then obtain off w where c: "carvLoop 0 b v1 = Return (off, True, w)"
      "carvLoop 0 b v2 = Return (off, True, w)" by blast
    have "Write wr v1 sink b = Write wr v2 sink b"
      by (simp add: Write_carving nf c)
    then show ?thesis by blast
  qed
qed

lemma WriteAll_alike:
  assumes "alike v1 v2"
  shows "sessionOutput (WriteAll wr v1 sink ws) = sessionOutput (WriteAll wr v2 sink ws)"
  using assms
proof (induction ws arbitrary: v1 v2)
  case Nil
  then show ?case by (simp add: sessionOutput_def)
next
  case (Cons b ws)
  from Write_alike [OF Cons.prems, of wr sink b] show ?case
  proof
    assume "\<exists>w1 w2. Write wr v1 sink b = Return (length b, None, w1, sink)
            \<and> Write wr v2 sink b = Return (length b, None, w2, sink) \<and> alike w1 w2"
    then obtain w1 w2 where
      w: "Write wr v1 sink b = Return (length b, None, w1, sink)"
         "Write wr v2 sink b = Return (length b, None, w2, sink)" and a: "alike w1 w2"
      by blast
    have "WriteAll wr v1 sink (b # ws) = WriteAll wr w1 sink ws"
      "WriteAll wr v2 sink (b # ws) = WriteAll wr w2 sink ws"
      by (simp_all add: w)
    with Cons.IH [OF a] show ?thesis by simp
  next
    assume "Write wr v1 sink b = Write wr v2 sink b"
    then have "WriteAll wr v1 sink (b # ws) = WriteAll wr v2 sink (b # ws)" by simp
    then show ?thesis by simp
  qed
qed

text \<open>The input of one \<open>Write\<close> call with bytes \<open>g\<close> put before it.\<close>

lemma carvLoop_Cons_cases:
  obtains (panic) "carvStep vba b = Panic" "carvLoop i (b # buff) vba = Panic"
  | (found) w where "carvStep vba b = Return w" "marker_cur w = 12"
      "carvLoop i (b # buff) vba = Return (i + 1, True, w\<lparr>marker_found := True\<rparr>)"
  | (continue) w where "carvStep vba b = Return w" "marker_cur w \<noteq> 12"
      "carvLoop i (b # buff) vba = carvLoop (i + 1) buff w"
proof (cases "carvStep vba b")
  case Panic
  then have "carvLoop i (b # buff) vba = Panic" by simp
  with Panic show ?thesis by (rule panic)
next
  case (Return w)
  show ?thesis
  proof (cases "marker_cur w = 12")
    case True
    from Return True carvLoop_found [OF Return True] show ?thesis by (rule found)
  next
    case False
    from Return False carvLoop_continue [OF Return False] show ?thesis by (rule continue)
  qed
qed

lemma carvLoop_append:
  assumes "carvLoop i g vba = Return (off, False, vba')"
  shows "carvLoop i (g @ p) vba = carvLoop (i + length g) p vba'"
  using assms
proof (induction g arbitrary: i vba)
  case Nil
  then show ?case by simp
next
  case (Cons b g)
  show ?case
  proof (cases rule: carvLoop_Cons_cases [of vba b i g])
    case panic
    with Cons.prems show ?thesis by simp
  next
    case (found w)
    with Cons.prems show ?thesis by simp
  next
    case (continue w)
    with Cons.prems have r: "carvLoop (i + 1) g w = Return (off, False, vba')" by simp
    have "carvLoop i ((b # g) @ p) vba = carvLoop (i + 1) (g @ p) w"
      using carvLoop_continue [OF continue(1,2), of i "g @ p"] by simp
    with Cons.IH [OF r] show ?thesis by simp
  qed
qed

lemma carvLoop_index:
  "carvLoop i p vba =
     (case carvLoop 0 p vba of
        Panic \<Rightarrow> Panic
      | Return (off, found, vba') \<Rightarrow> Return (if found then off + i else off, found, vba'))"
proof (induction p arbitrary: i vba)
  case Nil
  then show ?case by simp
next
  case (Cons b p)
  show ?case
  proof (cases rule: carvLoop_Cons_cases [of vba b i p])
    case panic
    then show ?thesis by simp
  next
    case (found w)
    with carvLoop_found [OF found(1,2), of 0 p] show ?thesis by simp
  next
    case (continue w)
    have c0: "carvLoop 0 (b # p) vba = carvLoop 1 p w"
      using carvLoop_continue [OF continue(1,2), of 0 p] by simp
    show ?thesis
      unfolding continue(3) c0
      by (subst Cons.IH [of "i + 1" w], subst Cons.IH [of 1 w])
         (simp split: outcome.splits)
  qed
qed

lemma fillBuffer_prefix:
  "fillBuffer (g @ b) (length g + offset) vba =
     (case fillBuffer b offset vba of
        Panic \<Rightarrow> Panic
      | Return (offset', vba1) \<Rightarrow> Return (length g + offset', vba1))"
  by (simp add: fillBuffer_def Let_def)

section \<open>One iteration of the loops\<close>

text \<open>The result of \<open>Write\<close> without the count: the error, the writer and the sink.\<close>

definition dropCount ::
  "(nat \<times> error option \<times> VBAWriter \<times> 'w) outcome \<Rightarrow> (error option \<times> VBAWriter \<times> 'w) outcome" where
  "dropCount r = (case r of Panic \<Rightarrow> Panic | Return (n, err, vba, sink) \<Rightarrow> Return (err, vba, sink))"


lemma uncompress_cases [case_names empty panic error wait flushPanic flushError negative shiftPanic continue]:
  obtains "cSize vba = 0" "uncompress wr tot vba sink = Return (tot, None, vba, sink)"
  | "0 < cSize vba" "uncompressChunk vba = Panic" "uncompress wr tot vba sink = Panic"
  | processed err vba1 where "0 < cSize vba"
      "uncompressChunk vba = Return (processed, Some err, vba1)"
      "uncompress wr tot vba sink = Return (tot + processed, Some err, vba1, sink)"
  | vba1 where "0 < cSize vba" "uncompressChunk vba = Return (0, None, vba1)"
      "uncompress wr tot vba sink = Return (tot, None, vba1, sink)"
  | processed vba1 where "0 < cSize vba" "processed \<noteq> 0"
      "uncompressChunk vba = Return (processed, None, vba1)"
      "flushChunk wr vba1 sink = Panic" "uncompress wr tot vba sink = Panic"
  | processed vba1 err vba2 sink' where "0 < cSize vba" "processed \<noteq> 0"
      "uncompressChunk vba = Return (processed, None, vba1)"
      "flushChunk wr vba1 sink = Return (Some err, vba2, sink')"
      "uncompress wr tot vba sink = Return (tot + processed, Some err, vba2, sink')"
  | processed vba1 vba2 sink' where "0 < cSize vba" "processed \<noteq> 0"
      "uncompressChunk vba = Return (processed, None, vba1)"
      "flushChunk wr vba1 sink = Return (None, vba2, sink')" "cSize vba2 < processed"
      "uncompress wr tot vba sink = Return (tot + processed, Some NegativeCopySize, vba2, sink')"
  | processed vba1 vba2 sink' where "0 < cSize vba" "processed \<noteq> 0"
      "uncompressChunk vba = Return (processed, None, vba1)"
      "flushChunk wr vba1 sink = Return (None, vba2, sink')" "\<not> cSize vba2 < processed"
      "shiftRemaining vba2 processed = Panic" "uncompress wr tot vba sink = Panic"
  | processed vba1 vba2 sink' vba3 where "0 < cSize vba" "processed \<noteq> 0"
      "uncompressChunk vba = Return (processed, None, vba1)"
      "flushChunk wr vba1 sink = Return (None, vba2, sink')" "\<not> cSize vba2 < processed"
      "shiftRemaining vba2 processed = Return vba3"
      "uncompress wr tot vba sink = uncompress wr (tot + processed) vba3 sink'"
proof (cases "0 < cSize vba")
  case False
  then have "uncompress wr tot vba sink = Return (tot, None, vba, sink)"
    by (simp add: uncompress.simps [of wr tot vba sink])
  with False that(1) show ?thesis by simp
next
  case pos: True
  note u = uncompress.simps [of wr tot vba sink]
  show ?thesis
  proof (cases "uncompressChunk vba")
    case Panic
    with pos that(2) show ?thesis by (simp add: u)
  next
    case (Return r)
    obtain processed e vba1 where r: "r = (processed, e, vba1)" by (cases r)
    show ?thesis
    proof (cases e)
      case (Some err)
      with pos Return r that(3) [of processed err vba1] show ?thesis by (simp add: u)
    next
      case None
      show ?thesis
      proof (cases "processed = 0")
        case True
        with pos Return r None that(4) [of vba1] show ?thesis by (simp add: u)
      next
        case pnz: False
        show ?thesis
        proof (cases "flushChunk wr vba1 sink")
          case Panic
          with pos Return r None pnz that(5) [of processed vba1] show ?thesis by (simp add: u)
        next
          case f: (Return r2)
          obtain e2 vba2 sink' where r2: "r2 = (e2, vba2, sink')" by (cases r2)
          show ?thesis
          proof (cases e2)
            case (Some err)
            with pos Return r None pnz f r2 that(6) [of processed vba1 err vba2 sink']
            show ?thesis by (simp add: u)
          next
            case e2: None
            show ?thesis
            proof (cases "cSize vba2 < processed")
              case True
              with pos Return r None pnz f r2 e2 that(7) [of processed vba1 vba2 sink']
              show ?thesis by (simp add: u)
            next
              case nn: False
              show ?thesis
              proof (cases "shiftRemaining vba2 processed")
                case Panic
                with pos Return r None pnz f r2 e2 nn that(8) [of processed vba1 vba2 sink']
                show ?thesis by (simp add: u)
              next
                case s: (Return vba3)
                with pos Return r None pnz f r2 e2 nn that(9) [of processed vba1 vba2 sink' vba3]
                show ?thesis by (simp add: u)
              qed
            qed
          qed
        qed
      qed
    qed
  qed
qed

lemma WriteLoop_cases [case_names finished fillPanic uncompressPanic error continue]:
  obtains "\<not> offset < length b" "WriteLoop wr b offset vba sink = Return (length b, None, vba, sink)"
  | "offset < length b" "fillBuffer b offset vba = Panic" "WriteLoop wr b offset vba sink = Panic"
  | offset' vba1 where "offset < length b" "fillBuffer b offset vba = Return (offset', vba1)"
      "uncompress wr 0 vba1 sink = Panic" "WriteLoop wr b offset vba sink = Panic"
  | offset' vba1 processed err vba2 sink' where "offset < length b"
      "fillBuffer b offset vba = Return (offset', vba1)"
      "uncompress wr 0 vba1 sink = Return (processed, Some err, vba2, sink')"
      "WriteLoop wr b offset vba sink = Return (processed, Some err, vba2, sink')"
  | offset' vba1 processed vba2 sink' where "offset < length b"
      "fillBuffer b offset vba = Return (offset', vba1)"
      "uncompress wr 0 vba1 sink = Return (processed, None, vba2, sink')"
      "WriteLoop wr b offset vba sink = WriteLoop wr b offset' vba2 sink'"
proof (cases "offset < length b")
  case False
  then have "WriteLoop wr b offset vba sink = Return (length b, None, vba, sink)"
    by (simp add: WriteLoop.simps [of wr b offset vba sink])
  with False that(1) show ?thesis by simp
next
  case lt: True
  note w = WriteLoop.simps [of wr b offset vba sink]
  show ?thesis
  proof (cases "fillBuffer b offset vba")
    case Panic
    with lt that(2) show ?thesis by (simp add: w)
  next
    case (Return r)
    obtain offset' vba1 where r: "r = (offset', vba1)" by (cases r)
    show ?thesis
    proof (cases "uncompress wr 0 vba1 sink")
      case Panic
      with lt Return r that(3) [of offset' vba1] show ?thesis by (simp add: w)
    next
      case u: (Return r2)
      obtain processed e vba2 sink' where r2: "r2 = (processed, e, vba2, sink')" by (cases r2)
      show ?thesis
      proof (cases e)
        case (Some err)
        with lt Return r u r2 that(4) [of offset' vba1 processed err vba2 sink']
        show ?thesis by (simp add: w)
      next
        case None
        with lt Return r u r2 that(5) [of offset' vba1 processed vba2 sink']
        show ?thesis by (simp add: w)
      qed
    qed
  qed
qed

lemma uncompress_induct [case_names step]:
  assumes "\<And>wr tot vba sink.
     (\<And>processed vba1 vba2 sink' vba3. 0 < cSize vba \<Longrightarrow> processed \<noteq> 0 \<Longrightarrow>
        uncompressChunk vba = Return (processed, None, vba1) \<Longrightarrow>
        flushChunk wr vba1 sink = Return (None, vba2, sink') \<Longrightarrow> \<not> cSize vba2 < processed \<Longrightarrow>
        shiftRemaining vba2 processed = Return vba3 \<Longrightarrow> P wr (tot + processed) vba3 sink')
     \<Longrightarrow> P wr tot vba sink"
  shows "P wr tot vba sink"
proof (induction wr tot vba sink rule: uncompress.induct)
  case (1 wr tot vba sink)
  show ?case
  proof (rule assms)
    fix processed vba1 vba2 sink' vba3
    assume "0 < cSize vba" "processed \<noteq> 0" "uncompressChunk vba = Return (processed, None, vba1)"
      "flushChunk wr vba1 sink = Return (None, vba2, sink')" "\<not> cSize vba2 < processed"
      "shiftRemaining vba2 processed = Return vba3"
    then show "P wr (tot + processed) vba3 sink'"
      by (intro "1.IH" [of "(processed, None, vba1)" processed "(None, vba1)" None vba1
            "(None, vba2, sink')" None "(vba2, sink')" vba2 sink' vba3]) simp_all
  qed
qed

lemma WriteLoop_induct [case_names step]:
  assumes "\<And>wr b offset vba sink.
     (\<And>offset' vba1 processed vba2 sink'. offset < length b \<Longrightarrow>
        fillBuffer b offset vba = Return (offset', vba1) \<Longrightarrow>
        uncompress wr 0 vba1 sink = Return (processed, None, vba2, sink') \<Longrightarrow>
        P wr b offset' vba2 sink')
     \<Longrightarrow> P wr b offset vba sink"
  shows "P wr b offset vba sink"
proof (induction wr b offset vba sink rule: WriteLoop.induct)
  case (1 wr b offset vba sink)
  show ?case
  proof (rule assms)
    fix offset' vba1 processed vba2 sink'
    assume "offset < length b" "fillBuffer b offset vba = Return (offset', vba1)"
      "uncompress wr 0 vba1 sink = Return (processed, None, vba2, sink')"
    then show "P wr b offset' vba2 sink'"
      by (intro "1.IH" [of "(offset', vba1)" offset' vba1 "(processed, None, vba2, sink')"
            processed "(None, vba2, sink')" None "(vba2, sink')" vba2 sink']) simp_all
  qed
qed

lemma WriteLoop_prefix:
  "dropCount (WriteLoop wr (g @ b) (length g + offset) vba sink)
     = dropCount (WriteLoop wr b offset vba sink)"
proof (induction wr b offset vba sink rule: WriteLoop_induct)
  case (step wr b offset vba sink)
  show ?case
  proof (cases rule: WriteLoop_cases [of offset b wr vba sink])
    case finished
    then have "\<not> length g + offset < length (g @ b)" by simp
    then have "WriteLoop wr (g @ b) (length g + offset) vba sink
        = Return (length (g @ b), None, vba, sink)"
      by (simp add: WriteLoop.simps [of wr "g @ b" "length g + offset" vba sink])
    with finished show ?thesis by (simp add: dropCount_def)
  next
    case fillPanic
    then show ?thesis
      by (simp add: WriteLoop.simps [of wr "g @ b" "length g + offset" vba sink]
            fillBuffer_prefix dropCount_def)
  next
    case (uncompressPanic offset' vba1)
    then show ?thesis
      by (simp add: WriteLoop.simps [of wr "g @ b" "length g + offset" vba sink]
            fillBuffer_prefix dropCount_def)
  next
    case (error offset' vba1 processed err vba2 sink')
    then show ?thesis
      by (simp add: WriteLoop.simps [of wr "g @ b" "length g + offset" vba sink]
            fillBuffer_prefix dropCount_def)
  next
    case (continue offset' vba1 processed vba2 sink')
    then have "WriteLoop wr (g @ b) (length g + offset) vba sink
        = WriteLoop wr (g @ b) (length g + offset') vba2 sink'"
      by (simp add: WriteLoop.simps [of wr "g @ b" "length g + offset" vba sink]
            fillBuffer_prefix)
    with step [OF continue(1,2,3)] continue(4) show ?thesis by simp
  qed
qed

section \<open>Garbage before the marker\<close>

lemma uncompressChunk_found:
  "uncompressChunk vba = Return (processed, err, vba') \<Longrightarrow> marker_found vba' = marker_found vba"
  by (auto simp: uncompressChunk_def Let_def split: if_splits outcome.splits)

lemma flushChunk_found:
  "flushChunk wr vba sink = Return (err, vba', sink') \<Longrightarrow> marker_found vba' = marker_found vba"
  by (auto simp: flushChunk_def split: if_splits prod.splits)

lemma shiftRemaining_found:
  "shiftRemaining vba p = Return vba' \<Longrightarrow> marker_found vba' = marker_found vba"
  by (auto simp: shiftRemaining_def Let_def split: if_splits)

lemma fillBuffer_found:
  "fillBuffer b offset vba = Return (offset', vba') \<Longrightarrow> marker_found vba' = marker_found vba"
  by (auto simp: fillBuffer_def Let_def split: if_splits)

lemma uncompress_found:
  "uncompress wr tot vba sink = Return (t, e, vba', sink') \<Longrightarrow> marker_found vba' = marker_found vba"
proof (induction wr tot vba sink rule: uncompress_induct)
  case (step wr tot vba sink)
  show ?case
  proof (cases rule: uncompress_cases [of vba wr tot sink])
    case empty
    with step.prems show ?thesis by simp
  next
    case panic
    with step.prems show ?thesis by simp
  next
    case (error processed err vba1)
    with step.prems uncompressChunk_found [OF error(2)] show ?thesis by simp
  next
    case (wait vba1)
    with step.prems uncompressChunk_found [OF wait(2)] show ?thesis by simp
  next
    case (flushPanic processed vba1)
    with step.prems show ?thesis by simp
  next
    case (flushError processed vba1 err vba2 sink2)
    with step.prems uncompressChunk_found [OF flushError(3)] flushChunk_found [OF flushError(4)]
    show ?thesis by simp
  next
    case (negative processed vba1 vba2 sink2)
    with step.prems uncompressChunk_found [OF negative(3)] flushChunk_found [OF negative(4)]
    show ?thesis by simp
  next
    case (shiftPanic processed vba1 vba2 sink2)
    with step.prems show ?thesis by simp
  next
    case (continue processed vba1 vba2 sink2 vba3)
    from step.prems continue(7) have "uncompress wr (tot + processed) vba3 sink2 = Return (t, e, vba', sink')"
      by simp
    from step.IH [OF continue(1,2,3,4,5,6) this]
      uncompressChunk_found [OF continue(3)] flushChunk_found [OF continue(4)]
      shiftRemaining_found [OF continue(6)]
    show ?thesis by simp
  qed
qed

lemma WriteLoop_found:
  "WriteLoop wr b offset vba sink = Return (n, e, vba', sink') \<Longrightarrow>
   marker_found vba' = marker_found vba"
proof (induction wr b offset vba sink rule: WriteLoop_induct)
  case (step wr b offset vba sink)
  show ?case
  proof (cases rule: WriteLoop_cases [of offset b wr vba sink])
    case finished
    with step.prems show ?thesis by simp
  next
    case fillPanic
    with step.prems show ?thesis by simp
  next
    case (uncompressPanic offset' vba1)
    with step.prems show ?thesis by simp
  next
    case (error offset' vba1 processed err vba2 sink2)
    with step.prems fillBuffer_found [OF error(2)] uncompress_found [OF error(3)]
    show ?thesis by simp
  next
    case (continue offset' vba1 processed vba2 sink2)
    from step.prems continue(4) have "WriteLoop wr b offset' vba2 sink2 = Return (n, e, vba', sink')"
      by simp
    from step.IH [OF continue(1,2,3) this] fillBuffer_found [OF continue(2)]
      uncompress_found [OF continue(3)]
    show ?thesis by simp
  qed
qed

lemma Write_found:
  "marker_found vba \<Longrightarrow> Write wr vba sink b = Return (n, e, vba', sink') \<Longrightarrow> marker_found vba'"
  by (simp add: Write_def WriteLoop_found)

lemma WriteAll_found:
  "marker_found vba \<Longrightarrow> WriteAll wr vba sink ws = Return (e, vba', sink') \<Longrightarrow> marker_found vba'"
proof (induction ws arbitrary: vba sink)
  case Nil
  then show ?case by simp
next
  case (Cons b ws)
  from Cons.prems(2) obtain n e1 vba1 sink1 where
    w: "Write wr vba sink b = Return (n, e1, vba1, sink1)"
    by (auto split: outcome.splits)
  note f1 = Write_found [OF Cons.prems(1) w]
  show ?case
  proof (cases e1)
    case None
    with Cons.prems(2) w have "WriteAll wr vba1 sink1 ws = Return (e, vba', sink')" by simp
    from Cons.IH [OF f1 this] show ?thesis .
  next
    case (Some err)
    with Cons.prems(2) w f1 show ?thesis by simp
  qed
qed

lemma carvLoop_found_flag:
  "carvLoop i buff vba = Return (off, True, vba') \<Longrightarrow> marker_found vba'"
proof (induction buff arbitrary: i vba)
  case Nil
  then show ?case by simp
next
  case (Cons b buff)
  show ?case
  proof (cases rule: carvLoop_Cons_cases [of vba b i buff])
    case panic
    with Cons.prems show ?thesis by simp
  next
    case (found w)
    with Cons.prems show ?thesis by auto
  next
    case (continue w)
    with Cons.prems Cons.IH [of "i + 1" w] show ?thesis by simp
  qed
qed

text \<open>A session that has not found the marker has produced nothing.\<close>

lemma WriteAll_carving:
  assumes "carving v0 v" and "carved v hist"
    and "WriteAll wr v sink ws = Return (e, v', sink')" and "\<not> marker_found v'"
  shows "e = None \<and> sink' = sink \<and> carving v0 v' \<and> carved v' (hist @ concat ws)"
  using assms
proof (induction ws arbitrary: v hist)
  case Nil
  then show ?case by simp
next
  case (Cons b ws)
  from Cons.prems(1) have nf: "\<not> marker_found v" by (simp add: carving_def)
  from carvLoop_carving [OF Cons.prems(1,2), of 0 b] show ?case
  proof
    assume "\<exists>vba'. carvLoop 0 b v = Return (0, False, vba')
            \<and> carving v0 vba' \<and> carved vba' (hist @ b)"
    then obtain w where c: "carvLoop 0 b v = Return (0, False, w)"
      and i: "carving v0 w" "carved w (hist @ b)" by blast
    have "Write wr v sink b = Return (length b, None, w, sink)"
      by (simp add: Write_carving nf c)
    with Cons.prems(3) have "WriteAll wr w sink ws = Return (e, v', sink')" by simp
    from Cons.IH [OF i this Cons.prems(4)] show ?thesis by simp
  next
    assume "\<exists>off vba'. carvLoop 0 b v = Return (off, True, vba')
            \<and> 0 < off \<and> off \<le> 0 + length b
            \<and> confirmed v0 vba' (hist @ take (off - 0) b)"
    then obtain off w where c: "carvLoop 0 b v = Return (off, True, w)" by blast
    from carvLoop_found_flag [OF c] have fw: "marker_found w" .
    have wl: "Write wr v sink b = WriteLoop wr b off w sink"
      by (simp add: Write_carving nf c)
    from Cons.prems(3) obtain n e1 v1 sink1 where
      w1: "Write wr v sink b = Return (n, e1, v1, sink1)"
      by (auto split: outcome.splits)
    from w1 wl WriteLoop_found [of wr b off w sink n e1 v1 sink1] fw
    have f1: "marker_found v1" by simp
    have "marker_found v'"
    proof (cases e1)
      case None
      with Cons.prems(3) w1 have "WriteAll wr v1 sink1 ws = Return (e, v', sink')" by simp
      from WriteAll_found [OF f1 this] show ?thesis .
    next
      case (Some err)
      with Cons.prems(3) w1 f1 show ?thesis by simp
    qed
    with Cons.prems(4) show ?thesis by simp
  qed
qed

lemma NewWriter_carving: "carving NewWriter NewWriter" "carved NewWriter []"
  by (simp_all add: carving_def carved_def NewWriter_def)

text \<open>
  Garbage that does not match: run alone through the carver of a new writer, it leaves
  no match in progress (the marker cursor is 0).
\<close>

definition nonMatching :: "byte list \<Rightarrow> bool" where
  "nonMatching g =
     (case carvVBA NewWriter g of
        Panic \<Rightarrow> False
      | Return (off, found, vg) \<Rightarrow> \<not> found \<and> marker_cur vg = 0)"

lemma nonMatching_alike:
  assumes "nonMatching g"
  shows "\<exists>vg. carvLoop 0 g NewWriter = Return (0, False, vg) \<and> alike vg NewWriter"
proof -
  from carvLoop_carving [OF NewWriter_carving, of 0 g] show ?thesis
  proof
    assume "\<exists>vba'. carvLoop 0 g NewWriter = Return (0, False, vba')
            \<and> carving NewWriter vba' \<and> carved vba' ([] @ g)"
    then obtain vg where c: "carvLoop 0 g NewWriter = Return (0, False, vg)"
      and i: "carving NewWriter vg" by blast
    from assms c have z: "marker_cur vg = 0" by (simp add: nonMatching_def carvVBA_def)
    from i z have "alike vg NewWriter"
      by (simp add: carving_def alike_def NewWriter_def)
    with c show ?thesis by blast
  next
    assume "\<exists>off vba'. carvLoop 0 g NewWriter = Return (off, True, vba')
            \<and> 0 < off \<and> off \<le> 0 + length g
            \<and> confirmed NewWriter vba' ([] @ take (off - 0) g)"
    with assms show ?thesis by (auto simp: nonMatching_def carvVBA_def)
  qed
qed

lemma WriteAll_dropCount:
  assumes "dropCount (Write wr v1 sink b1) = dropCount (Write wr v2 sink b2)"
  shows "WriteAll wr v1 sink (b1 # ws) = WriteAll wr v2 sink (b2 # ws)"
proof (cases "Write wr v1 sink b1")
  case Panic
  with assms have "Write wr v2 sink b2 = Panic"
    by (auto simp: dropCount_def split: outcome.splits)
  with Panic show ?thesis by simp
next
  case (Return r)
  obtain n e w s where r: "r = (n, e, w, s)" by (cases r)
  from assms Return r obtain n2 where "Write wr v2 sink b2 = Return (n2, e, w, s)"
    by (auto simp: dropCount_def split: outcome.splits)
  with Return r show ?thesis by (cases e) simp_all
qed

lemma Write_garbage_prefix:
  assumes c: "carvLoop 0 g v = Return (0, False, vg)" and nf: "\<not> marker_found v" "\<not> marker_found vg"
  shows "dropCount (Write wr v sink (g @ p)) = dropCount (Write wr vg sink p)"
proof -
  have e: "carvLoop 0 (g @ p) v = carvLoop (length g) p vg"
    using carvLoop_append [OF c, of p] by simp
  show ?thesis
  proof (cases "carvLoop 0 p vg")
    case Panic
    then show ?thesis
      by (simp add: Write_carving nf e carvLoop_index [of "length g" p vg])
  next
    case (Return r)
    obtain off found w where r: "r = (off, found, w)" by (cases r)
    show ?thesis
    proof (cases found)
      case False
      with Return r show ?thesis
        by (simp add: Write_carving nf e carvLoop_index [of "length g" p vg] dropCount_def)
    next
      case True
      with Return r WriteLoop_prefix [of wr g p off w sink] show ?thesis
        by (simp add: Write_carving nf e carvLoop_index [of "length g" p vg] add.commute)
    qed
  qed
qed

lemma drop_tail:
  "11 \<le> length h \<Longrightarrow> take 9 (drop 2 (drop (length h - 11) h)) = take 9 (drop (length h - 9) h)"
proof -
  assume "11 \<le> length h"
  then have "2 + (length h - 11) = length h - 9" by simp
  then show ?thesis by (simp add: add.commute)
qed

text \<open>
  Garbage that does not match, put before the marker-and-payload in the same write or in a
  write of its own, changes neither the error nor the bytes written to the sink by the
  session. As long as the signature is not confirmed a session reports no error and
  writes nothing; when \<open>carvVBA\<close> confirms it, after the input \<open>hist\<close> (the earlier writes and
  the bytes of this one up to the returned offset), the byte 12 places from the end of
  \<open>hist\<close> is the marker's first byte 1, and the accumulation buffer holds exactly the 11
  bytes after it (two header bytes, the byte 0 and the text Attribut): neither the byte 1
  nor anything before it, and nothing has been decompressed.
\<close>

lemma marker_carving_nonMatching:
  assumes "nonMatching g"
  shows "sessionOutput (WriteAll wr NewWriter sink ((g @ p) # ws))
           = sessionOutput (WriteAll wr NewWriter sink (p # ws))
       \<and> sessionOutput (WriteAll wr NewWriter sink (g # p # ws))
           = sessionOutput (WriteAll wr NewWriter sink (p # ws))
       \<and> (WriteAll wr NewWriter sink ws0 = Return (e, v, sink') \<and> \<not> marker_found v
            \<and> carvVBA v buff = Return (off, True, v') \<longrightarrow>
          e = None \<and> sink' = sink \<and> cSize v' = 11 \<and> uSize v' = 0
          \<and> 12 \<le> length (concat ws0 @ take off buff)
          \<and> (concat ws0 @ take off buff) ! (length (concat ws0 @ take off buff) - 12) = 1
          \<and> take (cSize v') (compressedBuffer v')
              = drop (length (concat ws0 @ take off buff) - 11) (concat ws0 @ take off buff)
          \<and> take 9 (drop 2 (compressedBuffer v')) = drop 3 marker)"
proof -
  from nonMatching_alike [OF assms] obtain vg where
    c: "carvLoop 0 g NewWriter = Return (0, False, vg)" and a: "alike vg NewWriter" by blast
  from a have nf: "\<not> marker_found NewWriter" "\<not> marker_found vg" by (simp_all add: alike_def)
  have "WriteAll wr NewWriter sink ((g @ p) # ws) = WriteAll wr vg sink (p # ws)"
    by (rule WriteAll_dropCount) (rule Write_garbage_prefix [OF c nf])
  then have one: "sessionOutput (WriteAll wr NewWriter sink ((g @ p) # ws))
           = sessionOutput (WriteAll wr NewWriter sink (p # ws))"
    using WriteAll_alike [OF a, of wr sink "p # ws"] by simp
  have "Write wr NewWriter sink g = Return (length g, None, vg, sink)"
    by (simp add: Write_carving nf c)
  then have "WriteAll wr NewWriter sink (g # p # ws) = WriteAll wr vg sink (p # ws)"
    by simp
  then have two: "sessionOutput (WriteAll wr NewWriter sink (g # p # ws))
           = sessionOutput (WriteAll wr NewWriter sink (p # ws))"
    using WriteAll_alike [OF a, of wr sink "p # ws"] by simp
  have three: "e = None \<and> sink' = sink \<and> cSize v' = 11 \<and> uSize v' = 0
          \<and> 12 \<le> length (concat ws0 @ take off buff)
          \<and> (concat ws0 @ take off buff) ! (length (concat ws0 @ take off buff) - 12) = 1
          \<and> take (cSize v') (compressedBuffer v')
              = drop (length (concat ws0 @ take off buff) - 11) (concat ws0 @ take off buff)
          \<and> take 9 (drop 2 (compressedBuffer v')) = drop 3 marker"
    if w: "WriteAll wr NewWriter sink ws0 = Return (e, v, sink')" and n: "\<not> marker_found v"
      and f: "carvVBA v buff = Return (off, True, v')"
  proof -
    let ?h = "concat ws0 @ take off buff"
    from WriteAll_carving [OF NewWriter_carving w n]
    have i: "e = None" "sink' = sink" "carving NewWriter v" "carved v (concat ws0)" by simp_all
    from carvLoop_carving [OF i(3,4), of 0 buff] f
    have cf: "confirmed NewWriter v' ?h"
      by (auto simp: carvVBA_def)
    then have k: "cSize v' = 11" "uSize v' = uSize NewWriter" "12 \<le> length ?h"
      "?h ! (length ?h - 12) = 1"
      "take 11 (compressedBuffer v') = drop (length ?h - 11) ?h"
      "take 9 (drop (length ?h - 9) ?h) = drop 3 marker"
      unfolding confirmed_def by blast+
    have u0: "uSize NewWriter = 0" by (simp add: NewWriter_def)
    have "take 9 (drop 2 (compressedBuffer v')) = take 9 (drop 2 (take 11 (compressedBuffer v')))"
      by (simp add: drop_take)
    also have "\<dots> = take 9 (drop 2 (drop (length ?h - 11) ?h))"
      by (simp only: k(5))
    also have "\<dots> = take 9 (drop (length ?h - 9) ?h)"
      using k(3) by (intro drop_tail) linarith
    finally have "take 9 (drop 2 (compressedBuffer v')) = drop 3 marker"
      by (simp only: k(6))
    with i(1,2) k u0 show ?thesis by simp
  qed
  from one two three show ?thesis by blast
qed

section \<open>The decoder reads only the chunk and what it has written\<close>

text \<open>Two buffers of one length that agree on their first \<open>n\<close> bytes.\<close>

definition agree :: "nat \<Rightarrow> byte list \<Rightarrow> byte list \<Rightarrow> bool" where
  "agree n xs ys = (length xs = length ys \<and> take n xs = take n ys)"

lemma agree_nth: "agree n xs ys \<Longrightarrow> i < n \<Longrightarrow> xs ! i = ys ! i"
  unfolding agree_def by (metis nth_take)

lemma agree_update:
  assumes "agree n xs ys" "n < length xs"
  shows "agree (Suc n) (xs[n := x]) (ys[n := x])"
  using assms by (simp add: agree_def take_update_last)

lemma copyLoop_sim:
  assumes "copyLoop index stop u1 us = Return (u1', us')" and "agree us u1 u2"
    and "index < int us"
  shows "\<exists>u2'. copyLoop index stop u2 us = Return (u2', us') \<and> agree us' u1' u2'"
  using assms
proof (induction index stop u1 us arbitrary: u2 rule: copyLoop.induct)
  case (1 index stop u1 us)
  show ?case
  proof (cases "index < stop")
    case False
    with "1.prems" show ?thesis by (simp add: copyLoop_stop)
  next
    case True
    note eq = "1.prems"(1) [unfolded copyLoop.simps [of index stop u1 us]]
    from eq True have nb: "\<not> (index < 0 \<or> int (length u1) \<le> index \<or> length u1 \<le> us)"
      by (auto split: if_splits)
    with eq True have r: "copyLoop (index + 1) stop (u1[us := u1 ! nat index]) (us + 1)
        = Return (u1', us')" by simp
    from "1.prems"(2) have len: "length u2 = length u1" by (simp add: agree_def)
    from nb "1.prems"(3) have "nat index < us" by linarith
    from agree_nth [OF "1.prems"(2) this] have same: "u1 ! nat index = u2 ! nat index" .
    from nb have "us < length u1" by simp
    from agree_update [OF "1.prems"(2) this, of "u1 ! nat index"]
    have a: "agree (us + 1) (u1[us := u1 ! nat index]) (u2[us := u2 ! nat index])"
      by (simp add: same)
    from "1.prems"(3) have "index + 1 < int (us + 1)" by simp
    from "1.IH" [OF True nb r a this] obtain u2' where
      r2: "copyLoop (index + 1) stop (u2[us := u2 ! nat index]) (us + 1) = Return (u2', us')"
      and a2: "agree us' u1' u2'" by blast
    from nb len True have "copyLoop index stop u2 us
        = copyLoop (index + 1) stop (u2[us := u2 ! nat index]) (us + 1)"
      by (subst copyLoop.simps) simp
    with r2 a2 show ?thesis by simp
  qed
qed

lemma copyTokenStep_sim:
  assumes "copyTokenStep c1 0 cur u1 us = Return (u1', us')" and "agree us u1 u2"
    and "c1 ! cur = c2 ! cur" and "c1 ! (cur + 1) = c2 ! (cur + 1)"
    and "cur + 2 \<le> length c1" and "cur + 2 \<le> length c2" and "us \<le> VBABuffSize"
  shows "\<exists>u2'. copyTokenStep c2 0 cur u2 us = Return (u2', us') \<and> agree us' u1' u2'"
proof -
  let ?b = "bitCountOf us"
  let ?t = "unat (Uint16 (c1 ! cur) (c1 ! (cur + 1)))"
  let ?len = "?t mod 2 ^ (16 - ?b) + 3"
  let ?offset = "?t div 2 ^ (16 - ?b) + 1"
  have e1: "copyTokenStep c1 0 cur u1 us
      = copyLoop (int us - int ?offset) (int us - int ?offset + int ?len) u1 us"
    using copyTokenStep_eq [OF _ assms(7,5), of 0 u1] by (simp add: Let_def)
  have e2: "copyTokenStep c2 0 cur u2 us
      = copyLoop (int us - int ?offset) (int us - int ?offset + int ?len) u2 us"
    using copyTokenStep_eq [OF _ assms(7,6), of 0 u2] assms(3,4) by (simp add: Let_def)
  have "int us - int ?offset < int us" by simp
  from copyLoop_sim [OF assms(1) [unfolded e1] assms(2) this] e2 show ?thesis by simp
qed

lemma take_nth_eq: "take n xs = take n ys \<Longrightarrow> i < n \<Longrightarrow> xs ! i = ys ! i"
  by (metis nth_take)

lemma itemLoop_sim:
  assumes "itemLoop c1 cend 0 fb bi (cur, u1, us) = Return (cur', u1', us')"
    and "cur' \<le> cend" and "agree us u1 u2" and "take cend c1 = take cend c2"
    and "cend \<le> length c1" and "cend \<le> length c2"
    and "us \<le> length u1" and "length u1 = VBABuffSize"
  shows "\<exists>u2'. itemLoop c2 cend 0 fb bi (cur, u2, us) = Return (cur', u2', us')
           \<and> agree us' u1' u2'"
  using assms
proof (induction c1 cend "0::nat" fb bi "(cur, u1, us)" arbitrary: cur u1 us u2 rule: itemLoop.induct)
  case (1 c1 cend fb bi cur u1 us)
  from "1.prems"(3) have len: "length u2 = length u1" by (simp add: agree_def)
  show ?case
  proof (cases "bi < 8")
    case False
    with "1.prems" show ?thesis by (simp add: itemLoop_done)
  next
    case bi: True
    show ?thesis
    proof (cases "cur < cend")
      case False
      from "1.prems"(1) have r: "itemLoop c1 cend 0 fb (bi + 1) (cur, u1, us) = Return (cur', u1', us')"
        by (simp add: itemLoop_skip [OF bi False])
      from "1.hyps"(3) [OF bi False r "1.prems"(2,3,4,5,6,7,8)]
      show ?thesis by (simp add: itemLoop_skip [OF bi False])
    next
      case cur: True
      show ?thesis
      proof (cases "drop_bit bi fb AND 1 = 0")
        case True
        from "1.prems"(1) have eq: "(if length c1 \<le> cur \<or> length u1 \<le> us then Panic
           else itemLoop c1 cend 0 fb (bi + 1) (cur + 1, u1[us := c1 ! cur], us + 1))
             = Return (cur', u1', us')"
          by (simp add: itemLoop_literal [OF bi cur True])
        then have nb: "\<not> (length c1 \<le> cur \<or> length u1 \<le> us)"
          by (auto split: if_splits)
        with eq have r: "itemLoop c1 cend 0 fb (bi + 1) (cur + 1, u1[us := c1 ! cur], us + 1)
           = Return (cur', u1', us')" by simp
        from take_nth_eq [OF "1.prems"(4) cur] have same: "c1 ! cur = c2 ! cur" .
        from nb have ul: "us < length u1" by simp
        from agree_update [OF "1.prems"(3) ul, of "c1 ! cur"]
        have a: "agree (us + 1) (u1[us := c1 ! cur]) (u2[us := c2 ! cur])" by (simp add: same)
        from ul "1.prems"(8) have l1: "us + 1 \<le> length (u1[us := c1 ! cur])"
          "length (u1[us := c1 ! cur]) = VBABuffSize" by simp_all
        from "1.hyps"(1) [OF bi cur True nb r "1.prems"(2) a "1.prems"(4,5,6) l1]
        obtain u2' where
          r2: "itemLoop c2 cend 0 fb (bi + 1) (cur + 1, u2[us := c2 ! cur], us + 1)
                 = Return (cur', u2', us')" and a2: "agree us' u1' u2'" by blast
        from cur "1.prems"(6) ul len have "\<not> (length c2 \<le> cur \<or> length u2 \<le> us)" by simp
        with r2 a2 show ?thesis
          by (simp add: itemLoop_literal [OF bi cur True])
      next
        case False
        from "1.prems"(1) obtain ua usa where
          st: "copyTokenStep c1 0 cur u1 us = Return (ua, usa)"
          and r: "itemLoop c1 cend 0 fb (bi + 1) (cur + 2, ua, usa) = Return (cur', u1', us')"
          by (auto simp: itemLoop_copy [OF bi cur False] split: outcome.splits)
        from itemLoop_cur_mono [OF r] "1.prems"(2) have c2: "cur + 2 \<le> cend" by simp
        with take_nth_eq [OF "1.prems"(4), of cur] take_nth_eq [OF "1.prems"(4), of "cur + 1"]
        have same: "c1 ! cur = c2 ! cur" "c1 ! (cur + 1) = c2 ! (cur + 1)" by simp_all
        from c2 "1.prems"(5,6) have inb: "cur + 2 \<le> length c1" "cur + 2 \<le> length c2" by simp_all
        from "1.prems"(7,8) have uv: "us \<le> VBABuffSize" by simp
        from copyTokenStep_sim [OF st "1.prems"(3) same inb uv] obtain ub where
          st2: "copyTokenStep c2 0 cur u2 us = Return (ub, usa)" and a: "agree usa ua ub"
          by blast
        from copyTokenStep_inv [OF st "1.prems"(7)] "1.prems"(8)
        have l1: "usa \<le> length ua" "length ua = VBABuffSize" by simp_all
        from "1.hyps"(2) [OF bi cur False st refl r "1.prems"(2) a "1.prems"(4,5,6) l1]
        obtain u2' where
          r2: "itemLoop c2 cend 0 fb (bi + 1) (cur + 2, ub, usa) = Return (cur', u2', us')"
          and a2: "agree us' u1' u2'" by blast
        from st2 r2 a2 show ?thesis
          by (simp add: itemLoop_copy [OF bi cur False])
      qed
    qed
  qed
qed

lemma chunkLoop_sim:
  assumes "chunkLoop c1 cend 0 (cur, u1, us) = Return (cur', u1', us')"
    and "cur' \<le> cend" and "agree us u1 u2" and "take cend c1 = take cend c2"
    and "cend \<le> length c1" and "cend \<le> length c2"
    and "us \<le> length u1" and "length u1 = VBABuffSize"
  shows "\<exists>u2'. chunkLoop c2 cend 0 (cur, u2, us) = Return (cur', u2', us')
           \<and> agree us' u1' u2'"
  using assms
proof (induction c1 cend "0::nat" "(cur, u1, us)" arbitrary: cur u1 us u2 rule: chunkLoop.induct)
  case (1 c1 cend cur u1 us)
  show ?case
  proof (cases "cur < cend")
    case False
    with "1.prems" show ?thesis by (simp add: chunkLoop_stop)
  next
    case True
    from True "1.prems"(5,6) have inb: "cur < length c1" "cur < length c2" by simp_all
    from "1.prems"(1) obtain s1 where
      i: "itemLoop c1 cend 0 (c1 ! cur) 0 (cur + 1, u1, us) = Return s1"
      and r: "chunkLoop c1 cend 0 s1 = Return (cur', u1', us')"
      by (auto simp: chunkLoop_step [OF True inb(1)] split: outcome.splits)
    obtain ca ua usa where s1: "s1 = (ca, ua, usa)" by (cases s1)
    from chunkLoop_cur_mono [OF r] "1.prems"(2) s1 have ca: "ca \<le> cend" by simp
    from take_nth_eq [OF "1.prems"(4) True] have same: "c1 ! cur = c2 ! cur" .
    from itemLoop_sim [OF i [unfolded s1] ca "1.prems"(3,4,5,6,7,8)] obtain ub where
      i2: "itemLoop c2 cend 0 (c1 ! cur) 0 (cur + 1, u2, us) = Return (ca, ub, usa)"
      and a: "agree usa ua ub" by blast
    from itemLoop_inv [OF i [unfolded s1]] "1.prems"(7,8) True
    have l1: "usa \<le> length ua" "length ua = VBABuffSize" by simp_all
    have nb: "\<not> length c1 \<le> cur" using inb by simp
    from "1.hyps" [OF True nb i [unfolded s1] r [unfolded s1] "1.prems"(2) a "1.prems"(4,5,6) l1]
    obtain u2' where
      r2: "chunkLoop c2 cend 0 (ca, ub, usa) = Return (cur', u2', us')"
      and a2: "agree us' u1' u2'" by blast
    from i2 r2 a2 same show ?thesis
      by (simp add: chunkLoop_step [OF True inb(2)])
  qed
qed

section \<open>Valid chunks and streams\<close>

text \<open>
  A writer whose compressed buffer holds the chunk \<open>c\<close> and nothing else, used to say what
  the decoder makes of a chunk on its own.
\<close>

definition chunkState :: "byte list \<Rightarrow> VBAWriter" where
  "chunkState c =
     NewWriter\<lparr>compressedBuffer := c @ replicate (VBABuffSize - length c) 0,
               cSize := length c, marker_cur := 12, marker_found := True\<rparr>"

text \<open>
  A valid chunk: its header has the signature bits and declares the chunk's own length,
  and the decoder accepts it and stops at its end.
\<close>

definition validChunk :: "byte list \<Rightarrow> bool" where
  "validChunk c =
     (length c \<le> VBABuffSize \<and> chunkSignature (chunkState c) = 3
      \<and> declaredSize (chunkState c) = length c
      \<and> (case uncompressChunk (chunkState c) of
            Panic \<Rightarrow> False
          | Return (processed, err, v) \<Rightarrow> err = None \<and> processed = length c))"

text \<open>The bytes the decoder produces from the chunk \<open>c\<close> on its own.\<close>

definition chunkOutput :: "byte list \<Rightarrow> byte list" where
  "chunkOutput c =
     (case uncompressChunk (chunkState c) of
        Panic \<Rightarrow> []
      | Return (processed, err, v) \<Rightarrow> take (uSize v) (uncompressedBuffer v))"

lemma chunkState_simps:
  "length c \<le> VBABuffSize \<Longrightarrow> length (compressedBuffer (chunkState c)) = VBABuffSize"
  "length (uncompressedBuffer (chunkState c)) = VBABuffSize"
  "cSize (chunkState c) = length c"
  "take (length c) (compressedBuffer (chunkState c)) = c"
  by (simp_all add: chunkState_def NewWriter_def)

lemma header_eq:
  assumes "take n (compressedBuffer v1) = take n (compressedBuffer v2)" "2 \<le> n"
  shows "chunkHeader v1 = chunkHeader v2"
  using take_nth_eq [OF assms(1), of 0] take_nth_eq [OF assms(1), of 1] assms(2)
  by (simp add: chunkHeader_def)

lemma go_copy_agree:
  "n \<le> length u1 \<Longrightarrow> length u1 = length u2 \<Longrightarrow> n \<le> length src \<Longrightarrow>
   agree n (go_copy u1 0 n src) (go_copy u2 0 n src)"
  by (simp add: agree_def go_copy_def Let_def min_def)

text \<open>
  A valid chunk at the front of the compressed buffer of any writer is decoded as it is
  on its own, whatever else the two buffers hold.
\<close>

lemma uncompressChunk_local:
  assumes v: "validChunk c"
    and len: "length (compressedBuffer vba) = VBABuffSize" "length (uncompressedBuffer vba) = VBABuffSize"
    and pre: "take (length c) (compressedBuffer vba) = c" and suff: "length c \<le> cSize vba"
  shows "\<exists>ubuf'. uncompressChunk vba
             = Return (length c, None,
                 vba\<lparr>uncompressedBuffer := ubuf', uSize := length (chunkOutput c)\<rparr>)
           \<and> length ubuf' = VBABuffSize
           \<and> take (length (chunkOutput c)) ubuf' = chunkOutput c"
proof -
  let ?s = "chunkState c"
  from v have cl: "length c \<le> VBABuffSize" and sg: "chunkSignature ?s = 3"
    and ds: "declaredSize ?s = length c"
    by (simp_all add: validChunk_def)
  from v obtain w where r: "uncompressChunk ?s = Return (length c, None, w)"
    by (auto simp: validChunk_def split: outcome.splits)
  from ds declaredSize_bounds(1) [of ?s] have c3: "3 \<le> length c" by simp
  note ss = chunkState_simps(1) [OF cl] chunkState_simps(2,3,4)
  have tk: "take (length c) (compressedBuffer ?s) = take (length c) (compressedBuffer vba)"
    by (simp add: ss pre)
  from header_eq [OF tk] c3 have h: "chunkHeader vba = chunkHeader ?s" by simp
  from h sg have sg': "chunkSignature vba = 3" by (simp add: chunkSignature_header)
  from h ds have ds': "declaredSize vba = length c" by (simp add: declaredSize_def)
  from h have fl: "chunkFlag vba = chunkFlag ?s" by (simp add: chunkFlag_def)
  have l2: "2 \<le> length (compressedBuffer vba)" "2 \<le> length (compressedBuffer ?s)"
    using len ss by (simp_all add: VBABuffSize_def)
  note us = r [unfolded uncompressChunk_unfold [OF l2(2) sg]]
  have out: "chunkOutput c = take (uSize w) (uncompressedBuffer w)"
    by (simp add: chunkOutput_def r)
  show ?thesis
  proof (cases "chunkFlag ?s = 0")
    case True
    from us True ds ss have full: "length c = 4098"
      by (auto split: if_splits)
    from us True ds ss full
    have w: "w = ?s\<lparr>uncompressedBuffer :=
                go_copy (uncompressedBuffer ?s) 0 4096 (take 4096 (drop 2 (compressedBuffer ?s))),
              uSize := 4096\<rparr>"
      by (auto split: if_splits)
    from full pre len have cv: "compressedBuffer vba = c" by (simp add: VBABuffSize_def)
    from full ss have cs: "compressedBuffer ?s = c"
      by (metis VBABuffSize_def order_refl take_all)
    let ?src = "take 4096 (drop 2 c)"
    from full have sl: "length ?src = 4096" by simp
    have ow: "chunkOutput c = ?src"
      using go_copy_take [of 4096 "uncompressedBuffer ?s" ?src] ss sl
      by (simp add: out w cs VBABuffSize_def)
    have "uncompressChunk vba
        = Return (4098, None, vba\<lparr>uncompressedBuffer := go_copy (uncompressedBuffer vba) 0 4096 ?src,
                                    uSize := 4096\<rparr>)"
      using True fl ds' full suff len
      by (simp add: uncompressChunk_unfold [OF l2(1) sg'] cv VBABuffSize_def)
    moreover have "take 4096 (go_copy (uncompressedBuffer vba) 0 4096 ?src) = ?src"
      using go_copy_take [of 4096 "uncompressedBuffer vba" ?src] len sl
      by (simp add: VBABuffSize_def)
    moreover have "length (go_copy (uncompressedBuffer vba) 0 4096 ?src) = VBABuffSize"
      using len by (simp add: VBABuffSize_def)
    ultimately show ?thesis using full ow sl
      by (intro exI [of _ "go_copy (uncompressedBuffer vba) 0 4096 ?src"]) simp
  next
    case False
    from us False ds ss obtain cur u1' us' where
      c1: "chunkLoop (compressedBuffer ?s) (length c) 0 (2, uncompressedBuffer ?s, 0)
             = Return (cur, u1', us')"
      and cur: "cur = length c" and w: "w = ?s\<lparr>uncompressedBuffer := u1', uSize := us'\<rparr>"
      by (auto split: if_splits outcome.splits)
    have a: "agree 0 (uncompressedBuffer ?s) (uncompressedBuffer vba)"
      using len ss by (simp add: agree_def)
    have le: "length c \<le> length (compressedBuffer ?s)" "length c \<le> length (compressedBuffer vba)"
      using cl ss len by simp_all
    from chunkLoop_sim [OF c1 [unfolded cur] _ a tk le _ ss(2)] obtain u2' where
      c2: "chunkLoop (compressedBuffer vba) (length c) 0 (2, uncompressedBuffer vba, 0)
             = Return (length c, u2', us')"
      and a2: "agree us' u1' u2'" by auto
    from chunkLoop_inv [OF c2] len c3 have l2': "length u2' = VBABuffSize" by simp
    from out w have ow: "chunkOutput c = take us' u1'" by simp
    from chunkLoop_inv [OF c1] ss c3 have "us' \<le> length u1'" by simp
    with ow have ol: "length (chunkOutput c) = us'" by simp
    from a2 have "take us' u2' = take us' u1'" by (simp add: agree_def)
    with c2 False fl ds' suff l2' ow ol show ?thesis
      by (intro exI [of _ u2']) (simp add: uncompressChunk_unfold [OF l2(1) sg'])
  qed
qed

text \<open>The writes a session makes for the chunks \<open>cs\<close>: one for each chunk with output.\<close>

definition streamOutput :: "byte list list \<Rightarrow> byte list list" where
  "streamOutput cs = filter (\<lambda>out. out \<noteq> []) (map chunkOutput cs)"

lemma streamOutput_snoc:
  "k < length cs \<Longrightarrow>
   streamOutput (take (Suc k) cs)
     = streamOutput (take k cs) @ (if chunkOutput (cs ! k) = [] then [] else [chunkOutput (cs ! k)])"
  by (simp add: streamOutput_def take_Suc_conv_app_nth)

lemma concat_take_Suc:
  "k < length cs \<Longrightarrow> concat (take (Suc k) cs) = concat (take k cs) @ cs ! k"
  by (simp add: take_Suc_conv_app_nth)

lemma concat_drop_Suc:
  "k < length cs \<Longrightarrow> concat (drop k cs) = cs ! k @ concat (drop (Suc k) cs)"
  by (simp add: Cons_nth_drop_Suc [symmetric])

lemma signature_high_byte:
  "drop_bit 12 (Uint16 b0 b1) = drop_bit 12 (Uint16 b0' b1)"
  by (rule bit_word_eqI) (auto simp: Uint16_def bit_simps dest: bit_imp_le_length)

text \<open>
  The second byte of the buffer, left over from an earlier header, carries the
  signature bits: with any first byte it passes the signature check.
\<close>

definition staleOK :: "VBAWriter \<Rightarrow> bool" where
  "staleOK vba = (\<forall>b0. drop_bit 12 (Uint16 b0 (compressedBuffer vba ! 1)) AND 7 = (3::uint16))"

lemma staleOK_signature: "staleOK vba \<Longrightarrow> chunkSignature vba = 3"
  by (simp add: staleOK_def chunkSignature_def)

lemma signature_staleOK:
  "chunkSignature v = 3 \<Longrightarrow> compressedBuffer vba ! 1 = compressedBuffer v ! 1 \<Longrightarrow> staleOK vba"
  unfolding staleOK_def chunkSignature_def
  using signature_high_byte by metis

lemma flushChunk_appendSink:
  assumes "uSize v \<le> length (uncompressedBuffer v)"
  shows "flushChunk appendSink v sink
     = Return (None, v\<lparr>uSize := 0\<rparr>,
         if uSize v = 0 then sink else sink @ [take (uSize v) (uncompressedBuffer v)])"
proof (cases "uSize v = 0")
  case True
  then have "v\<lparr>uSize := 0\<rparr> = v" by simp
  with True show ?thesis by (simp add: flushChunk_def)
next
  case False
  with assms show ?thesis by (simp add: flushChunk_def appendSink_def)
qed

lemma shiftRemaining_Return:
  assumes "cSize v \<le> length (compressedBuffer v)" "p \<le> cSize v"
  shows "\<exists>cbuf'. shiftRemaining v p = Return (v\<lparr>compressedBuffer := cbuf', cSize := cSize v - p\<rparr>)
           \<and> length cbuf' = length (compressedBuffer v)
           \<and> take (cSize v - p) cbuf' = take (cSize v - p) (drop p (compressedBuffer v))
           \<and> (cSize v - p \<le> 1 \<longrightarrow> cbuf' ! 1 = compressedBuffer v ! 1)"
proof (cases "cSize v - p > 0")
  case False
  then have "v\<lparr>cSize := cSize v - p\<rparr> = v\<lparr>compressedBuffer := compressedBuffer v, cSize := cSize v - p\<rparr>"
    by simp
  with False show ?thesis
    by (intro exI [of _ "compressedBuffer v"]) (simp add: shiftRemaining_def Let_def)
next
  case True
  let ?n = "cSize v - p"
  let ?src = "take ?n (drop p (compressedBuffer v))"
  let ?c = "go_copy (compressedBuffer v) 0 ?n ?src"
  from assms have sl: "length ?src = ?n" by simp
  from assms have nl: "?n \<le> length (compressedBuffer v)" by simp
  have a: "shiftRemaining v p = Return (v\<lparr>compressedBuffer := ?c, cSize := ?n\<rparr>)"
    using True assms by (simp add: shiftRemaining_def Let_def)
  have b: "length ?c = length (compressedBuffer v)"
    using nl by simp
  have c: "take ?n ?c = ?src"
    using go_copy_take [of ?n "compressedBuffer v" ?src] nl sl by simp
  have d: "?n \<le> 1 \<longrightarrow> ?c ! 1 = compressedBuffer v ! 1"
  proof
    assume "?n \<le> 1"
    with True have n1: "?n = 1" by simp
    from n1 nl sl show "?c ! 1 = compressedBuffer v ! 1"
      by (simp add: go_copy_def Let_def nth_append min_def)
  qed
  from a b c d show ?thesis by blast
qed

section \<open>The assembler on a valid stream\<close>

text \<open>
  \<open>buffered cs vba sink j k\<close>: of the compressed bytes \<open>concat cs\<close>, \<open>j\<close> have been
  delivered; the first \<open>k\<close> chunks have been decoded and their output written to the sink;
  the accumulation buffer holds the delivered bytes of the chunks from the \<open>k\<close>-th on.
\<close>

definition buffered :: "byte list list \<Rightarrow> VBAWriter \<Rightarrow> byte list list \<Rightarrow> nat \<Rightarrow> nat \<Rightarrow> bool" where
  "buffered cs vba sink j k =
     (marker_found vba \<and> length (compressedBuffer vba) = VBABuffSize
      \<and> length (uncompressedBuffer vba) = VBABuffSize \<and> cSize vba \<le> VBABuffSize
      \<and> k \<le> length cs \<and> length (concat (take k cs)) + cSize vba = j
      \<and> cSize vba \<le> length (concat (drop k cs))
      \<and> take (cSize vba) (compressedBuffer vba) = take (cSize vba) (concat (drop k cs))
      \<and> sink = streamOutput (take k cs) \<and> (cSize vba \<le> 1 \<longrightarrow> staleOK vba))"

text \<open>No complete chunk is left in the buffer.\<close>

definition settled :: "byte list list \<Rightarrow> VBAWriter \<Rightarrow> nat \<Rightarrow> bool" where
  "settled cs vba k = (k < length cs \<longrightarrow> cSize vba < length (cs ! k))"

lemma validChunk_length: "validChunk c \<Longrightarrow> 3 \<le> length c \<and> length c \<le> VBABuffSize"
  using declaredSize_bounds(1) [of "chunkState c"] by (simp add: validChunk_def)

lemma uncompress_buffered:
  assumes "\<forall>c \<in> set cs. validChunk c" and "buffered cs vba sink j k"
  shows "\<exists>tot' vba' k'. uncompress appendSink tot vba sink
             = Return (tot', None, vba', streamOutput (take k' cs))
           \<and> buffered cs vba' (streamOutput (take k' cs)) j k' \<and> settled cs vba' k'"
  using assms(2)
proof (induction "length cs - k" arbitrary: k vba sink tot)
  case 0
  then have k: "k = length cs" and z: "cSize vba = 0" and s: "sink = streamOutput (take k cs)"
    by (simp_all add: buffered_def)
  from z have "uncompress appendSink tot vba sink = Return (tot, None, vba, sink)"
    by (simp add: uncompress.simps [of appendSink tot vba sink])
  with "0.prems" s k show ?case
    by - (rule exI [of _ tot], rule exI [of _ vba], rule exI [of _ k], simp add: settled_def)
next
  case (Suc n)
  from Suc.hyps(2) have kl: "k < length cs" by simp
  let ?c = "cs ! k"
  let ?rest = "concat (drop (Suc k) cs)"
  from kl assms(1) have vc: "validChunk ?c" by simp
  note cl = validChunk_length [OF vc]
  from Suc.prems have b: "marker_found vba" "length (compressedBuffer vba) = VBABuffSize"
    "length (uncompressedBuffer vba) = VBABuffSize" "cSize vba \<le> VBABuffSize"
    "length (concat (take k cs)) + cSize vba = j" "cSize vba \<le> length (concat (drop k cs))"
    "take (cSize vba) (compressedBuffer vba) = take (cSize vba) (concat (drop k cs))"
    "sink = streamOutput (take k cs)" "cSize vba \<le> 1 \<longrightarrow> staleOK vba"
    by (simp_all add: buffered_def)
  note r = concat_drop_Suc [OF kl]
  from b(2) have l2: "2 \<le> length (compressedBuffer vba)" by (simp add: VBABuffSize_def)
  show ?case
  proof (cases "cSize vba = 0")
    case True
    then have "uncompress appendSink tot vba sink = Return (tot, None, vba, sink)"
      by (simp add: uncompress.simps [of appendSink tot vba sink])
    with Suc.prems b(8) True cl show ?thesis
      by - (rule exI [of _ tot], rule exI [of _ vba], rule exI [of _ k], auto simp add: settled_def)
  next
    case False
    then have pos: "0 < cSize vba" by simp
    show ?thesis
    proof (cases "cSize vba < length ?c")
      case short: True
      have sg: "chunkSignature vba = 3" and ds: "cSize vba < declaredSize vba"
      proof -
        show "chunkSignature vba = 3"
        proof (cases "cSize vba \<le> 1")
          case True
          with b(9) show ?thesis by (simp add: staleOK_signature)
        next
          case False
          then have c2: "2 \<le> cSize vba" by simp
          have "take (cSize vba) (compressedBuffer vba) = take (cSize vba) (compressedBuffer (chunkState ?c))"
            using short by (simp add: b(7) r chunkState_def)
          from header_eq [OF this c2] vc show ?thesis
            by (simp add: chunkSignature_header validChunk_def)
        qed
        show "cSize vba < declaredSize vba"
        proof (cases "cSize vba \<le> 1")
          case True
          with declaredSize_bounds(1) [of vba] show ?thesis by simp
        next
          case False
          then have c2: "2 \<le> cSize vba" by simp
          have "take (cSize vba) (compressedBuffer vba) = take (cSize vba) (compressedBuffer (chunkState ?c))"
            using short by (simp add: b(7) r chunkState_def)
          from header_eq [OF this c2] vc short show ?thesis
            by (simp add: declaredSize_def validChunk_def)
        qed
      qed
      have u: "uncompressChunk vba = Return (0, None, vba\<lparr>uSize := 0\<rparr>)"
        using ds by (simp add: uncompressChunk_unfold [OF l2 sg])
      have "uncompress appendSink tot vba sink = Return (tot, None, vba\<lparr>uSize := 0\<rparr>, sink)"
        using pos u by (simp add: uncompress.simps [of appendSink tot vba sink])
      moreover have "buffered cs (vba\<lparr>uSize := 0\<rparr>) sink j k"
        using Suc.prems by (simp add: buffered_def staleOK_def)
      moreover have "settled cs (vba\<lparr>uSize := 0\<rparr>) k"
        using short by (simp add: settled_def)
      ultimately show ?thesis using b(8)
        by - (rule exI [of _ tot], rule exI [of _ "vba\<lparr>uSize := 0\<rparr>"], rule exI [of _ k], simp)
    next
      case full: False
      then have fl: "length ?c \<le> cSize vba" by simp
      have pre: "take (length ?c) (compressedBuffer vba) = ?c"
      proof -
        have "take (length ?c) (compressedBuffer vba)
            = take (length ?c) (take (cSize vba) (compressedBuffer vba))"
          using fl by (simp add: min_def)
        also have "\<dots> = ?c"
          using fl by (simp add: b(7) r min_def)
        finally show ?thesis .
      qed
      let ?out = "chunkOutput ?c"
      from uncompressChunk_local [OF vc b(2,3) pre fl] obtain ubuf' where
        u: "uncompressChunk vba = Return (length ?c, None,
               vba\<lparr>uncompressedBuffer := ubuf', uSize := length ?out\<rparr>)"
        and ul: "length ubuf' = VBABuffSize" and ut: "take (length ?out) ubuf' = ?out"
        by blast
      let ?v1 = "vba\<lparr>uncompressedBuffer := ubuf', uSize := length ?out\<rparr>"
      have ol: "length ?out \<le> VBABuffSize"
      proof -
        from ut have "length (take (length ?out) ubuf') = length ?out" by simp
        with ul show ?thesis by (simp add: min_def split: if_splits)
      qed
      let ?sink2 = "if ?out = [] then sink else sink @ [?out]"
      have f: "flushChunk appendSink ?v1 sink = Return (None, ?v1\<lparr>uSize := 0\<rparr>, ?sink2)"
        using flushChunk_appendSink [of ?v1 sink] ol ul ut by simp
      let ?v2 = "?v1\<lparr>uSize := 0\<rparr>"
      from shiftRemaining_Return [of ?v2 "length ?c"] b(2,4) fl obtain cbuf' where
        sh: "shiftRemaining ?v2 (length ?c)
               = Return (?v2\<lparr>compressedBuffer := cbuf', cSize := cSize vba - length ?c\<rparr>)"
        and sl: "length cbuf' = VBABuffSize"
        and st: "take (cSize vba - length ?c) cbuf'
               = take (cSize vba - length ?c) (drop (length ?c) (compressedBuffer vba))"
        and s1: "cSize vba - length ?c \<le> 1 \<longrightarrow> cbuf' ! 1 = compressedBuffer vba ! 1"
        by auto
      let ?v3 = "?v2\<lparr>compressedBuffer := cbuf', cSize := cSize vba - length ?c\<rparr>"
      have step: "uncompress appendSink tot vba sink
          = uncompress appendSink (tot + length ?c) ?v3 ?sink2"
      proof -
        from cl have ne: "cs ! k \<noteq> []" by auto
        show ?thesis
          using pos u f sh fl ne
          by (simp add: uncompress.simps [of appendSink tot vba sink])
      qed
      have tk: "take (cSize vba - length ?c) cbuf' = take (cSize vba - length ?c) ?rest"
      proof -
        have "take (cSize vba - length ?c) (drop (length ?c) (compressedBuffer vba))
            = drop (length ?c) (take (cSize vba) (compressedBuffer vba))"
          by (simp add: drop_take)
        also have "\<dots> = take (cSize vba - length ?c) ?rest"
          using fl by (simp add: b(7) r drop_take min_def)
        finally show ?thesis using st by simp
      qed
      have stale: "cSize vba - length ?c \<le> 1 \<longrightarrow> staleOK ?v3"
      proof
        assume "cSize vba - length ?c \<le> 1"
        with s1 have "cbuf' ! 1 = compressedBuffer vba ! 1" by simp
        moreover have "compressedBuffer vba ! 1 = ?c ! 1"
        proof -
          from cl have "1 < length ?c" by simp
          then have "take (length ?c) (compressedBuffer vba) ! 1 = compressedBuffer vba ! 1"
            by (rule nth_take)
          with pre show ?thesis by simp
        qed
        moreover have "compressedBuffer (chunkState ?c) ! 1 = ?c ! 1"
          using cl by (simp add: chunkState_def nth_append)
        ultimately have "compressedBuffer ?v3 ! 1 = compressedBuffer (chunkState ?c) ! 1"
          by simp
        with vc show "staleOK ?v3"
          by (intro signature_staleOK [of "chunkState ?c"]) (simp_all add: validChunk_def)
      qed
      have a1: "cSize vba - length ?c \<le> VBABuffSize" using b(4) by arith
      have a2: "cSize vba - length ?c \<le> length ?rest" using b(6) by (simp add: r)
      have b3: "buffered cs ?v3 ?sink2 j (Suc k)"
        using b kl fl sl ul tk stale a1 a2
        by (simp add: buffered_def concat_take_Suc streamOutput_snoc r)
      from Suc.hyps(2) have n: "n = length cs - Suc k" by simp
      from Suc.hyps(1) [OF n b3, of "tot + length ?c"] step show ?thesis by simp
    qed
  qed
qed

lemma go_copy_take_upto:
  assumes "lo \<le> length buf" "n = min (hi - lo) (length src)"
  shows "take (lo + n) (go_copy buf lo hi src) = take lo buf @ take n src"
  using assms by (simp add: go_copy_def Let_def min_def)

lemma go_copy_nth_above:
  assumes "lo \<le> length buf" "lo + min (hi - lo) (length src) \<le> i" "i < length buf"
  shows "go_copy buf lo hi src ! i = buf ! i"
proof -
  let ?n = "min (hi - lo) (length src)"
  have l: "length (take lo buf @ take ?n src) = lo + ?n"
    using assms(1) by (simp add: min_def)
  have "go_copy buf lo hi src ! i = ((take lo buf @ take ?n src) @ drop (lo + ?n) buf) ! i"
    by (simp add: go_copy_def Let_def)
  also have "\<dots> = drop (lo + ?n) buf ! (i - (lo + ?n))"
    using assms(2) l by (simp only: nth_append) simp
  also have "\<dots> = buf ! i"
    using assms(2,3) by simp
  finally show ?thesis .
qed

lemma fillBuffer_append:
  assumes len: "length (compressedBuffer vba) = VBABuffSize" and c: "cSize vba \<le> VBABuffSize"
    and off: "offset < length b"
  shows "\<exists>offset' cbuf'. fillBuffer b offset vba
             = Return (offset', vba\<lparr>compressedBuffer := cbuf', cSize := cSize vba + (offset' - offset)\<rparr>)
           \<and> offset \<le> offset' \<and> offset' \<le> length b \<and> length cbuf' = VBABuffSize
           \<and> cSize vba + (offset' - offset) \<le> VBABuffSize
           \<and> take (cSize vba + (offset' - offset)) cbuf'
               = take (cSize vba) (compressedBuffer vba) @ take (offset' - offset) (drop offset b)
           \<and> (cSize vba + (offset' - offset) \<le> 1 \<longrightarrow> cbuf' ! 1 = compressedBuffer vba ! 1)"
proof (cases "VBABuffSize - cSize vba < length b - offset")
  case True
  let ?n = "VBABuffSize - cSize vba"
  let ?src = "take ?n (drop offset b)"
  let ?cbuf = "go_copy (compressedBuffer vba) (cSize vba) (length (compressedBuffer vba)) ?src"
  from True have sl: "length ?src = ?n" by simp
  have m: "?n = min (length (compressedBuffer vba) - cSize vba) (length ?src)"
    using sl len by simp
  have iv: "int VBABuffSize - int (cSize vba) < int (length b) - int offset"
    "nat (int VBABuffSize - int (cSize vba)) = ?n" "\<not> int VBABuffSize - int (cSize vba) < 0"
    using True c off by arith+
  have f: "fillBuffer b offset vba
      = Return (offset + ?n, vba\<lparr>compressedBuffer := ?cbuf, cSize := cSize vba + ?n\<rparr>)"
    using iv len c by (simp add: fillBuffer_def Let_def)
  have t: "take (cSize vba + ?n) ?cbuf = take (cSize vba) (compressedBuffer vba) @ take ?n ?src"
    using c len by (intro go_copy_take_upto [OF _ m]) simp
  have s: "cSize vba + ?n \<le> 1 \<longrightarrow> ?cbuf ! 1 = compressedBuffer vba ! 1"
    using c by (simp add: VBABuffSize_def)
  have o: "offset \<le> offset + ?n" "offset + ?n \<le> length b" "cSize vba + ?n \<le> VBABuffSize"
    using True c by arith+
  have l: "length ?cbuf = VBABuffSize" using len by simp
  have d: "offset + ?n - offset = ?n" by simp
  have "fillBuffer b offset vba
          = Return (offset + ?n, vba\<lparr>compressedBuffer := ?cbuf, cSize := cSize vba + (offset + ?n - offset)\<rparr>)
      \<and> offset \<le> offset + ?n \<and> offset + ?n \<le> length b \<and> length ?cbuf = VBABuffSize
      \<and> cSize vba + (offset + ?n - offset) \<le> VBABuffSize
      \<and> take (cSize vba + (offset + ?n - offset)) ?cbuf
            = take (cSize vba) (compressedBuffer vba) @ take (offset + ?n - offset) (drop offset b)
      \<and> (cSize vba + (offset + ?n - offset) \<le> 1 \<longrightarrow> ?cbuf ! 1 = compressedBuffer vba ! 1)"
    unfolding d using f t s o l by (simp only: take_take min.idem)
  then show ?thesis by blast
next
  case False
  let ?n = "length b - offset"
  let ?src = "drop offset b"
  let ?cbuf = "go_copy (compressedBuffer vba) (cSize vba) (cSize vba + ?n) ?src"
  from False c have fit: "cSize vba + ?n \<le> VBABuffSize" by arith
  have m: "?n = min (cSize vba + ?n - cSize vba) (length ?src)" by simp
  have iv: "\<not> int VBABuffSize - int (cSize vba) < int (length b) - int offset"
    "nat (int (length b) - int offset) = ?n"
    using False c off by arith+
  have f: "fillBuffer b offset vba
      = Return (offset + ?n, vba\<lparr>compressedBuffer := ?cbuf, cSize := cSize vba + ?n\<rparr>)"
    using iv len fit by (simp add: fillBuffer_def Let_def)
  have t: "take (cSize vba + ?n) ?cbuf = take (cSize vba) (compressedBuffer vba) @ take ?n ?src"
    using c len by (intro go_copy_take_upto [OF _ m]) simp
  have s: "cSize vba + ?n \<le> 1 \<longrightarrow> ?cbuf ! 1 = compressedBuffer vba ! 1"
  proof
    assume "cSize vba + ?n \<le> 1"
    then have "cSize vba + min (cSize vba + ?n - cSize vba) (length ?src) \<le> 1" by simp
    with c len show "?cbuf ! 1 = compressedBuffer vba ! 1"
      by (intro go_copy_nth_above) (simp_all add: VBABuffSize_def)
  qed
  have o: "offset \<le> offset + ?n" "offset + ?n \<le> length b"
    using off by arith+
  have l: "length ?cbuf = VBABuffSize" using len fit by simp
  have d: "offset + ?n - offset = ?n" by simp
  have "fillBuffer b offset vba
          = Return (offset + ?n, vba\<lparr>compressedBuffer := ?cbuf, cSize := cSize vba + (offset + ?n - offset)\<rparr>)
      \<and> offset \<le> offset + ?n \<and> offset + ?n \<le> length b \<and> length ?cbuf = VBABuffSize
      \<and> cSize vba + (offset + ?n - offset) \<le> VBABuffSize
      \<and> take (cSize vba + (offset + ?n - offset)) ?cbuf
            = take (cSize vba) (compressedBuffer vba) @ take (offset + ?n - offset) (drop offset b)
      \<and> (cSize vba + (offset + ?n - offset) \<le> 1 \<longrightarrow> ?cbuf ! 1 = compressedBuffer vba ! 1)"
    unfolding d using f t s o l fit by (simp only:)
  then show ?thesis by blast
qed

lemma concat_take_drop_length:
  "length (concat (take k cs)) + length (concat (drop k cs)) = length (concat cs)"
proof -
  have "concat (take k cs) @ concat (drop k cs) = concat cs"
    by (simp add: concat_append [symmetric])
  then have "length (concat (take k cs) @ concat (drop k cs)) = length (concat cs)" by simp
  then show ?thesis by simp
qed

lemma drop_concat_take:
  "drop (length (concat (take k cs)) + n) (concat cs) = drop n (concat (drop k cs))"
proof -
  have "concat cs = concat (take k cs) @ concat (drop k cs)"
    by (simp add: concat_append [symmetric])
  then have "drop (length (concat (take k cs)) + n) (concat cs)
      = drop (length (concat (take k cs)) + n) (concat (take k cs) @ concat (drop k cs))"
    by simp
  also have "\<dots> = drop n (concat (drop k cs))" by simp
  finally show ?thesis .
qed

lemma take_add_drop: "take (n + m) xs = take n xs @ take m (drop n xs)"
  by (simp add: take_add)

text \<open>Filling the buffer with the next bytes of a valid stream.\<close>

lemma fillBuffer_buffered:
  assumes b: "buffered cs vba sink j k" and off: "offset < length b"
    and seg: "drop offset b = take (length b - offset) (drop j (concat cs))"
    and fit: "j + (length b - offset) \<le> length (concat cs)"
  shows "\<exists>offset' vba1. fillBuffer b offset vba = Return (offset', vba1)
           \<and> offset \<le> offset' \<and> offset' \<le> length b
           \<and> buffered cs vba1 sink (j + (offset' - offset)) k"
proof -
  from b have g: "marker_found vba" "length (compressedBuffer vba) = VBABuffSize"
    "length (uncompressedBuffer vba) = VBABuffSize" "cSize vba \<le> VBABuffSize"
    "k \<le> length cs" "length (concat (take k cs)) + cSize vba = j"
    "cSize vba \<le> length (concat (drop k cs))"
    "take (cSize vba) (compressedBuffer vba) = take (cSize vba) (concat (drop k cs))"
    "sink = streamOutput (take k cs)" "cSize vba \<le> 1 \<longrightarrow> staleOK vba"
    by (simp_all add: buffered_def)
  from fillBuffer_append [OF g(2) g(4) off] obtain offset' cbuf' where
    f: "fillBuffer b offset vba
          = Return (offset', vba\<lparr>compressedBuffer := cbuf', cSize := cSize vba + (offset' - offset)\<rparr>)"
    and o: "offset \<le> offset'" "offset' \<le> length b" and l: "length cbuf' = VBABuffSize"
    and cl: "cSize vba + (offset' - offset) \<le> VBABuffSize"
    and t: "take (cSize vba + (offset' - offset)) cbuf'
               = take (cSize vba) (compressedBuffer vba) @ take (offset' - offset) (drop offset b)"
    and s: "cSize vba + (offset' - offset) \<le> 1 \<longrightarrow> cbuf' ! 1 = compressedBuffer vba ! 1"
    by blast
  let ?d = "offset' - offset"
  let ?v = "vba\<lparr>compressedBuffer := cbuf', cSize := cSize vba + ?d\<rparr>"
  let ?q = "concat (drop k cs)"
  have dj: "drop j (concat cs) = drop (cSize vba) ?q"
    using drop_concat_take [of k cs "cSize vba"] g(6) by simp
  have le: "cSize vba + ?d \<le> length ?q"
    using fit o g(6) concat_take_drop_length [of k cs] by arith
  have "take ?d (drop offset b) = take ?d (drop (cSize vba) ?q)"
  proof -
    have "take ?d (drop offset b) = take ?d (take (length b - offset) (drop (cSize vba) ?q))"
      using seg dj by simp
    also have "\<dots> = take ?d (drop (cSize vba) ?q)"
      using o by (simp add: min_def)
    finally show ?thesis .
  qed
  with t g(8) have tk: "take (cSize vba + ?d) cbuf' = take (cSize vba + ?d) ?q"
    by (simp add: take_add_drop)
  have st: "cSize vba + ?d \<le> 1 \<longrightarrow> staleOK ?v"
  proof
    assume a: "cSize vba + ?d \<le> 1"
    with s g(10) show "staleOK ?v" by (simp add: staleOK_def)
  qed
  have "buffered cs ?v sink (j + ?d) k"
    using g l cl le tk st by (simp add: buffered_def)
  with f o show ?thesis by blast
qed

text \<open>The loop of \<open>Write\<close> on the next bytes of a valid stream.\<close>

lemma WriteLoop_buffered:
  assumes "\<forall>c \<in> set cs. validChunk c" and "buffered cs vba sink j k" and "offset \<le> length b"
    and "drop offset b = take (length b - offset) (drop j (concat cs))"
    and "j + (length b - offset) \<le> length (concat cs)"
  shows "\<exists>vba' k'. WriteLoop appendSink b offset vba sink
             = Return (length b, None, vba', streamOutput (take k' cs))
           \<and> buffered cs vba' (streamOutput (take k' cs)) (j + (length b - offset)) k'
           \<and> (offset < length b \<or> settled cs vba k \<longrightarrow> settled cs vba' k')"
  using assms(2-)
proof (induction "appendSink" b offset vba sink arbitrary: j k rule: WriteLoop_induct)
  case (step b offset vba sink)
  show ?case
  proof (cases "offset < length b")
    case False
    then have w: "WriteLoop appendSink b offset vba sink = Return (length b, None, vba, sink)"
      by (simp add: WriteLoop.simps [of appendSink b offset vba sink])
    from step.prems(1) have s: "sink = streamOutput (take k cs)" by (simp add: buffered_def)
    from False step.prems(2) have e: "length b - offset = 0" by simp
    show ?thesis
      using w s step.prems(1) False e
      by - (rule exI [of _ vba], rule exI [of _ k], simp)
  next
    case True
    from fillBuffer_buffered [OF step.prems(1) True step.prems(3,4)] obtain offset' vba1 where
      f: "fillBuffer b offset vba = Return (offset', vba1)"
      and o: "offset \<le> offset'" "offset' \<le> length b"
      and b1: "buffered cs vba1 sink (j + (offset' - offset)) k"
      by blast
    from uncompress_buffered [OF assms(1) b1, of 0] obtain tot' vba2 k2 where
      u: "uncompress appendSink 0 vba1 sink = Return (tot', None, vba2, streamOutput (take k2 cs))"
      and b2: "buffered cs vba2 (streamOutput (take k2 cs)) (j + (offset' - offset)) k2"
      and s2: "settled cs vba2 k2"
      by blast
    have w: "WriteLoop appendSink b offset vba sink
        = WriteLoop appendSink b offset' vba2 (streamOutput (take k2 cs))"
      using True f u by (simp add: WriteLoop.simps [of appendSink b offset vba sink])
    have seg: "drop offset' b
        = take (length b - offset') (drop (j + (offset' - offset)) (concat cs))"
    proof -
      have "drop offset' b = drop (offset' - offset) (drop offset b)"
        using o by simp
      also have "\<dots> = drop (offset' - offset) (take (length b - offset) (drop j (concat cs)))"
        using step.prems(3) by simp
      also have "\<dots> = take (length b - offset') (drop (j + (offset' - offset)) (concat cs))"
        using o by (simp add: drop_take add.commute)
      finally show ?thesis .
    qed
    have fit: "j + (offset' - offset) + (length b - offset') \<le> length (concat cs)"
      using step.prems(4) o by arith
    from step.hyps [OF True f u b2 o(2) seg fit] obtain vba' k' where
      r: "WriteLoop appendSink b offset' vba2 (streamOutput (take k2 cs))
            = Return (length b, None, vba', streamOutput (take k' cs))"
      and b3: "buffered cs vba' (streamOutput (take k' cs))
                 (j + (offset' - offset) + (length b - offset')) k'"
      and s3: "offset' < length b \<or> settled cs vba2 k2 \<longrightarrow> settled cs vba' k'"
      by blast
    have e: "j + (offset' - offset) + (length b - offset') = j + (length b - offset)"
      using o by arith
    show ?thesis
      using w r b3 s3 s2 e
      by - (rule exI [of _ vba'], rule exI [of _ k'], simp)
  qed
qed

section \<open>Sessions on a valid stream\<close>

text \<open>
  A valid stream: the byte 1 followed by the chunks \<open>cs\<close>, each of them valid, that begins
  with the marker of the carver (the two dots of the marker are the header of the first
  chunk).
\<close>

definition validStream :: "byte list \<Rightarrow> byte list list \<Rightarrow> bool" where
  "validStream s cs =
     (s = 1 # concat cs \<and> (\<forall>c \<in> set cs. validChunk c) \<and> 12 \<le> length s
      \<and> take 9 (drop 3 s) = drop 3 marker)"

text \<open>The carver after the first \<open>n < 12\<close> bytes of a valid stream.\<close>

definition tracking :: "byte list list \<Rightarrow> VBAWriter \<Rightarrow> nat \<Rightarrow> bool" where
  "tracking cs vba n =
     (\<not> marker_found vba \<and> marker_cur vba = n \<and> cSize vba = n - 1 \<and> n < 12
      \<and> length (compressedBuffer vba) = VBABuffSize
      \<and> length (uncompressedBuffer vba) = VBABuffSize
      \<and> take (n - 1) (compressedBuffer vba) = take (n - 1) (concat cs))"

lemma validStreamD:
  assumes "validStream s cs"
  shows "s = 1 # concat cs" "\<forall>c \<in> set cs. validChunk c" "12 \<le> length s"
    "take 9 (drop 3 s) = drop 3 marker" "11 \<le> length (concat cs)"
  using assms unfolding validStream_def by auto

lemma validStream_nth:
  assumes "validStream s cs" "3 \<le> i" "i < 12"
  shows "s ! i = marker ! i"
proof -
  note d = validStreamD [OF assms(1)]
  from d(4) have "take 9 (drop 3 s) ! (i - 3) = drop 3 marker ! (i - 3)"
    by simp
  moreover have "take 9 (drop 3 s) ! (i - 3) = s ! i"
    using assms(2,3) d(3) by simp
  moreover have "drop 3 marker ! (i - 3) = marker ! i"
    using assms by (simp add: marker_nth)
  ultimately show ?thesis by simp
qed

lemma carvStep_tracking:
  assumes v: "validStream s cs" and t: "tracking cs vba n"
  shows "\<exists>w. carvStep vba (s ! n) = Return w \<and> marker_cur w = n + 1 \<and> \<not> marker_found w
           \<and> cSize w = n \<and> length (compressedBuffer w) = VBABuffSize
           \<and> length (uncompressedBuffer w) = VBABuffSize
           \<and> take n (compressedBuffer w) = take n (concat cs)"
proof -
  from t have g: "\<not> marker_found vba" "marker_cur vba = n" "cSize vba = n - 1" "n < 12"
    "length (compressedBuffer vba) = VBABuffSize" "length (uncompressedBuffer vba) = VBABuffSize"
    "take (n - 1) (compressedBuffer vba) = take (n - 1) (concat cs)"
    by (simp_all add: tracking_def)
  note s = validStreamD(1) [OF v] and l = validStreamD(3) [OF v] and lc = validStreamD(5) [OF v]
  from g(4,5) have c: "n - 1 < length (compressedBuffer vba)" by (simp add: VBABuffSize_def)
  from lc g(4) have lq: "n - 1 < length (concat cs)" by simp
  have tk: "0 < n \<Longrightarrow> take n ((compressedBuffer vba)[n - 1 := s ! n]) = take n (concat cs)"
  proof -
    assume p: "0 < n"
    then have e: "n = Suc (n - 1)" by simp
    from p s have sn: "s ! n = concat cs ! (n - 1)" by (simp add: nth_Cons')
    have "take (Suc (n - 1)) ((compressedBuffer vba)[n - 1 := s ! n])
        = take (n - 1) (compressedBuffer vba) @ [s ! n]"
      using c by (rule take_update_last)
    also have "\<dots> = take (n - 1) (concat cs) @ [concat cs ! (n - 1)]"
      using g(7) sn by simp
    also have "\<dots> = take (Suc (n - 1)) (concat cs)"
      using lq by (simp add: take_Suc_conv_app_nth)
    finally show ?thesis using e by simp
  qed
  consider "n = 0" | "n = 1 \<or> n = 2" | "3 \<le> n" by arith
  then show ?thesis
  proof cases
    case 1
    with s have "s ! n = marker ! 0" by (simp add: marker_nth)
    with 1 g c show ?thesis
      by (simp add: carvStep_def Let_def marker_nth)
  next
    case 2
    with g c tk show ?thesis
      by (auto simp: carvStep_def Let_def)
  next
    case 3
    from validStream_nth [OF v 3 g(4)] have m: "s ! n = marker ! n" .
    from 3 have p: "0 < n" "n \<noteq> 1" "n \<noteq> 2" by simp_all
    from 3 have e: "Suc (n - Suc 0) = n" by simp
    show ?thesis
      using g c tk [OF p(1)] p m e
      by (simp add: carvStep_def Let_def marker_nth)
  qed
qed

lemma carvLoop_tracking:
  assumes v: "validStream s cs" and "tracking cs vba n"
    and "buff = take (length buff) (drop n s)" and "n + length buff \<le> length s"
  shows "if n + length buff < 12
         then \<exists>vba'. carvLoop i buff vba = Return (0, False, vba')
                \<and> tracking cs vba' (n + length buff)
         else \<exists>vba'. carvLoop i buff vba = Return (i + (12 - n), True, vba')
                \<and> buffered cs vba' [] 11 0"
  using assms(2-)
proof (induction buff arbitrary: n i vba)
  case Nil
  then have "n < 12" by (simp add: tracking_def)
  with Nil show ?case by simp
next
  case (Cons b buff)
  from Cons.prems(1) have n: "n < 12" by (simp add: tracking_def)
  from Cons.prems(3) have nl: "n < length s" by simp
  from Cons.prems(2) nl have b: "b = s ! n"
    by (simp add: take_Suc_conv_app_nth Cons_nth_drop_Suc [symmetric])
  from Cons.prems(2) nl have r: "buff = take (length buff) (drop (Suc n) s)"
    by (simp add: Cons_nth_drop_Suc [symmetric])
  from carvStep_tracking [OF v Cons.prems(1)] b obtain w where
    w: "carvStep vba b = Return w" "marker_cur w = n + 1" "\<not> marker_found w"
    "cSize w = n" "length (compressedBuffer w) = VBABuffSize"
    "length (uncompressedBuffer w) = VBABuffSize"
    "take n (compressedBuffer w) = take n (concat cs)"
    by auto
  note s = validStreamD(1) [OF v] and l = validStreamD(3) [OF v] and lc = validStreamD(5) [OF v]
  show ?case
  proof (cases "n = 11")
    case True
    with w(2) have m: "marker_cur w = 12" by simp
    have "buffered cs (w\<lparr>marker_found := True\<rparr>) [] 11 0"
      using w True lc by (simp add: buffered_def VBABuffSize_def streamOutput_def)
    with carvLoop_found [OF w(1) m, of i buff] True show ?thesis by simp
  next
    case False
    with w(2) n have m: "marker_cur w \<noteq> 12" by simp
    from False n w have t: "tracking cs w (Suc n)" by (simp add: tracking_def)
    from Cons.prems(3) have f: "Suc n + length buff \<le> length s" by simp
    note ih = Cons.IH [OF t r f, of "i + 1"]
    note c = carvLoop_continue [OF w(1) m, of i buff]
    show ?thesis
    proof (cases "n + length (b # buff) < 12")
      case True
      then have lt: "Suc n + length buff < 12" by simp
      from ih lt obtain vba' where
        "carvLoop (i + 1) buff w = Return (0, False, vba')"
        "tracking cs vba' (Suc n + length buff)" by auto
      with c have "carvLoop i (b # buff) vba = Return (0, False, vba')"
        "tracking cs vba' (n + length (b # buff))" by (simp_all only: list.size add_Suc_right add_Suc add_0_right)
      with True show ?thesis by (simp only: if_True) blast
    next
      case False
      then have ge: "\<not> Suc n + length buff < 12" by simp
      from n have e: "i + 1 + (12 - Suc n) = i + (12 - n)" by arith
      from ih ge obtain vba' where
        "carvLoop (i + 1) buff w = Return (i + 1 + (12 - Suc n), True, vba')"
        "buffered cs vba' [] 11 0" by auto
      with c have "carvLoop i (b # buff) vba = Return (i + (12 - n), True, vba')"
        "buffered cs vba' [] 11 0" by (simp_all only: e)
      with False show ?thesis by (simp only: if_False) blast
    qed
  qed
qed

text \<open>
  The state of a session after \<open>n\<close> bytes of a valid stream: the carver is following the
  marker; or the marker has just been confirmed; or the assembler has decoded every chunk
  that is complete.
\<close>

definition phase :: "byte list list \<Rightarrow> VBAWriter \<Rightarrow> byte list list \<Rightarrow> nat \<Rightarrow> bool" where
  "phase cs vba sink n =
     (if n < 12 then tracking cs vba n \<and> sink = []
      else if n = 12 then buffered cs vba [] 11 0 \<and> sink = []
      else \<exists>k. buffered cs vba sink (n - 1) k \<and> settled cs vba k)"

lemma Write_phase:
  assumes v: "validStream s cs" and p: "phase cs vba sink n"
    and seg: "b = take (length b) (drop n s)" and fit: "n + length b \<le> length s"
  shows "\<exists>vba' sink'. Write appendSink vba sink b = Return (length b, None, vba', sink')
           \<and> phase cs vba' sink' (n + length b)"
proof -
  note s = validStreamD(1) [OF v] and l = validStreamD(3) [OF v] and vc = validStreamD(2) [OF v]
  have loop: "\<exists>vba' sink'. WriteLoop appendSink b offset v0 sink0 = Return (length b, None, vba', sink')
           \<and> phase cs vba' sink' (n + length b)"
    if b0: "buffered cs v0 sink0 (n + offset - 1) k0" and o: "offset < length b"
      and n12: "12 \<le> n + offset" for v0 sink0 k0 offset
  proof -
    have d: "drop offset b = take (length b - offset) (drop (n + offset - 1) (concat cs))"
    proof -
      have "drop offset b = drop offset (take (length b) (drop n s))" using seg by simp
      also have "\<dots> = take (length b - offset) (drop (n + offset) s)"
        by (simp add: drop_take add.commute)
      also have "drop (n + offset) s = drop (n + offset - 1) (concat cs)"
      proof -
        from n12 obtain m where m: "n + offset = Suc m" by (cases "n + offset") simp_all
        show ?thesis unfolding m using s by simp
      qed
      finally show ?thesis .
    qed
    have f: "n + offset - 1 + (length b - offset) \<le> length (concat cs)"
      using fit s o n12 by simp
    from o have ol: "offset \<le> length b" by simp
    from WriteLoop_buffered [OF vc b0 ol d f] o obtain vba' k' where
      r: "WriteLoop appendSink b offset v0 sink0
            = Return (length b, None, vba', streamOutput (take k' cs))"
      and b1: "buffered cs vba' (streamOutput (take k' cs)) (n + offset - 1 + (length b - offset)) k'"
      and s1: "settled cs vba' k'"
      by blast
    have e: "n + offset - 1 + (length b - offset) = n + length b - 1"
      using o n12 by arith
    have g: "\<not> n + length b < 12" "n + length b \<noteq> 12" using o n12 by arith+
    have "phase cs vba' (streamOutput (take k' cs)) (n + length b)"
      using b1 s1 g unfolding e phase_def by auto
    with r show ?thesis by blast
  qed
  have stay: "WriteLoop appendSink b offset v0 sink0 = Return (length b, None, v0, sink0)"
    if "\<not> offset < length b" for offset v0 sink0
    using that by (simp add: WriteLoop.simps [of appendSink b offset v0 sink0])
  consider "n < 12" | "n = 12" | "12 < n" by arith
  then show ?thesis
  proof cases
    case 1
    with p have t: "tracking cs vba n" and e: "sink = []" by (simp_all add: phase_def)
    from t have nf: "\<not> marker_found vba" by (simp add: tracking_def)
    note w = Write_carving [OF nf, of appendSink sink b]
    note c = carvLoop_tracking [OF v t seg fit, of 0]
    show ?thesis
    proof (cases "n + length b < 12")
      case True
      with c obtain vba' where c1: "carvLoop 0 b vba = Return (0, False, vba')"
        and t1: "tracking cs vba' (n + length b)" by auto
      from w c1 have "Write appendSink vba sink b = Return (length b, None, vba', sink)" by simp
      moreover from t1 e True have "phase cs vba' sink (n + length b)" by (simp add: phase_def)
      ultimately show ?thesis by blast
    next
      case False
      with c obtain vba' where c1: "carvLoop 0 b vba = Return (12 - n, True, vba')"
        and b1: "buffered cs vba' [] 11 0" by auto
      from w c1 e have w1: "Write appendSink vba sink b = WriteLoop appendSink b (12 - n) vba' []"
        by simp
      show ?thesis
      proof (cases "12 - n < length b")
        case True
        from 1 have a: "n + (12 - n) - 1 = 11" and n12: "12 \<le> n + (12 - n)" by arith+
        from b1 a have b1': "buffered cs vba' [] (n + (12 - n) - 1) 0" by simp
        from loop [OF b1' True n12] w1 show ?thesis by simp
      next
        case f: False
        with False 1 have "n + length b = 12" by arith
        with b1 have "phase cs vba' [] (n + length b)" by (simp add: phase_def)
        with stay [OF f, of vba' "[]"] w1 show ?thesis by simp
      qed
    qed
  next
    case 2
    with p have b0: "buffered cs vba [] 11 0" and e: "sink = []" by (simp_all add: phase_def)
    from b0 have mf: "marker_found vba" by (simp add: buffered_def)
    then have w: "Write appendSink vba sink b = WriteLoop appendSink b 0 vba sink"
      by (simp add: Write_def)
    show ?thesis
    proof (cases "0 < length b")
      case True
      from 2 b0 e have "buffered cs vba sink (n + 0 - 1) 0" by simp
      from loop [OF this True] 2 w show ?thesis by simp
    next
      case False
      from stay [OF False, of vba sink] w p False show ?thesis by simp
    qed
  next
    case 3
    with p obtain k where b0: "buffered cs vba sink (n - 1) k" by (auto simp: phase_def)
    from b0 have mf: "marker_found vba" by (simp add: buffered_def)
    then have w: "Write appendSink vba sink b = WriteLoop appendSink b 0 vba sink"
      by (simp add: Write_def)
    show ?thesis
    proof (cases "0 < length b")
      case True
      from b0 have "buffered cs vba sink (n + 0 - 1) k" by simp
      from loop [OF this True] 3 w show ?thesis by simp
    next
      case False
      from stay [OF False, of vba sink] w p False show ?thesis by simp
    qed
  qed
qed

lemma WriteAll_phase:
  assumes v: "validStream s cs" and "phase cs vba sink n"
    and "concat ws = take (length (concat ws)) (drop n s)"
    and "n + length (concat ws) \<le> length s"
  shows "\<exists>vba' sink'. WriteAll appendSink vba sink ws = Return (None, vba', sink')
           \<and> phase cs vba' sink' (n + length (concat ws))"
  using assms(2-)
proof (induction ws arbitrary: vba sink n)
  case Nil
  then show ?case by simp
next
  case (Cons b ws)
  let ?r = "concat ws"
  from Cons.prems(3) have fit: "n + length b \<le> length s"
    and fit2: "n + length b + length ?r \<le> length s" by simp_all
  from Cons.prems(2) have e: "b @ ?r = take (length b + length ?r) (drop n s)" by simp
  have "take (length b) (b @ ?r) = take (length b) (take (length b + length ?r) (drop n s))"
    by (simp only: e [symmetric])
  then have seg: "b = take (length b) (drop n s)" by (simp add: min_def)
  have "drop (length b) (b @ ?r) = drop (length b) (take (length b + length ?r) (drop n s))"
    by (simp only: e [symmetric])
  then have rest: "?r = take (length ?r) (drop (n + length b) s)"
    by (simp add: drop_take add.commute)
  from Write_phase [OF v Cons.prems(1) seg fit] obtain vba1 sink1 where
    w: "Write appendSink vba sink b = Return (length b, None, vba1, sink1)"
    and p1: "phase cs vba1 sink1 (n + length b)" by blast
  from Cons.IH [OF p1 rest fit2] w show ?case by (simp add: add.assoc)
qed

lemma NewWriter_tracking: "tracking cs NewWriter 0"
  by (simp add: tracking_def NewWriter_def VBABuffSize_def)

text \<open>
  The output of a session on a valid stream, however the stream is cut into writes: the
  output of each chunk, in order, once. A stream of 12 bytes ends with the marker: the
  assembler is never called, and the one chunk stays in the buffer.
\<close>

definition expectedOutput :: "byte list \<Rightarrow> byte list list \<Rightarrow> byte list list" where
  "expectedOutput s cs = (if length s = 12 then [] else streamOutput cs)"

text \<open>The number of chunks that are complete within the first \<open>m\<close> bytes of \<open>concat cs\<close>.\<close>

fun completeChunks :: "byte list list \<Rightarrow> nat \<Rightarrow> nat" where
  "completeChunks [] m = 0"
| "completeChunks (c # cs) m =
     (if length c \<le> m then Suc (completeChunks cs (m - length c)) else 0)"

text \<open>
  One write per completed chunk: the writes that the chunks complete within the first \<open>m\<close>
  bytes of \<open>concat cs\<close> give, in chunk order (a chunk without output gives no write).
\<close>

definition flushedOutput :: "byte list list \<Rightarrow> nat \<Rightarrow> byte list list" where
  "flushedOutput cs m = streamOutput (take (completeChunks cs m) cs)"

lemma completeChunks_eq:
  assumes "k \<le> length cs" "r \<le> length (concat (drop k cs))"
    "k < length cs \<longrightarrow> r < length (cs ! k)"
  shows "completeChunks cs (length (concat (take k cs)) + r) = k"
  using assms
proof (induction cs arbitrary: k)
  case Nil
  then show ?case by simp
next
  case (Cons c cs)
  show ?case
  proof (cases k)
    case 0
    with Cons.prems show ?thesis by simp
  next
    case (Suc k')
    with Cons.prems have "k' \<le> length cs" "r \<le> length (concat (drop k' cs))"
      "k' < length cs \<longrightarrow> r < length (cs ! k')" by simp_all
    from Cons.IH [OF this] Suc show ?thesis by simp
  qed
qed

text \<open>
  Once a byte has followed the 12 bytes of the marker, the sink holds one write per chunk
  that is complete in the \<open>n - 1\<close> bytes delivered after the byte 1.
\<close>

lemma phase_output:
  assumes "phase cs vba sink n" and "12 < n"
  shows "sink = flushedOutput cs (n - 1)"
proof -
  from assms obtain k where b: "buffered cs vba sink (n - 1) k" and t: "settled cs vba k"
    by (auto simp: phase_def split: if_splits)
  from b have g: "k \<le> length cs" "length (concat (take k cs)) + cSize vba = n - 1"
    "cSize vba \<le> length (concat (drop k cs))" "sink = streamOutput (take k cs)"
    by (simp_all add: buffered_def)
  from t have "k < length cs \<longrightarrow> cSize vba < length (cs ! k)" by (simp add: settled_def)
  from completeChunks_eq [OF g(1,3) this] g(2) have "completeChunks cs (n - 1) = k" by simp
  with g(4) show ?thesis by (simp add: flushedOutput_def)
qed

section \<open>Calling the assembler again\<close>

lemma uncompressChunk_wait:
  assumes "uncompressChunk vba = Return (0, None, vba')"
  shows "vba' = vba\<lparr>uSize := 0\<rparr> \<and> uncompressChunk vba' = Return (0, None, vba')"
proof -
  from assms have a: "vba' = vba\<lparr>uSize := 0\<rparr>"
    by (auto simp: uncompressChunk_def Let_def split: if_splits outcome.splits
          dest!: chunkLoop_cur_mono)
  from assms have "uncompressChunk (vba\<lparr>uSize := 0\<rparr>) = Return (0, None, vba\<lparr>uSize := 0\<rparr>)"
    by (auto simp: uncompressChunk_def Let_def split: if_splits outcome.splits
          dest!: chunkLoop_cur_mono)
  with a show ?thesis by simp
qed

lemma uncompress_again:
  assumes "uncompress wr tot vba sink = Return (t, None, vba', sink')"
  shows "uncompress wr tot2 vba' sink' = Return (tot2, None, vba', sink')"
  using assms
proof (induction wr tot vba sink rule: uncompress_induct)
  case (step wr tot vba sink)
  show ?case
  proof (cases rule: uncompress_cases [of vba wr tot sink])
    case empty
    with step.prems have e: "vba' = vba" "sink' = sink" by simp_all
    from empty(1) show ?thesis
      unfolding e by (simp add: uncompress.simps [of wr tot2 vba sink])
  next
    case panic
    with step.prems show ?thesis by simp
  next
    case (error processed err vba1)
    with step.prems show ?thesis by simp
  next
    case (wait vba1)
    with step.prems have e: "vba' = vba1" "sink' = sink" by simp_all
    from uncompressChunk_wait [OF wait(2)] have w: "uncompressChunk vba1 = Return (0, None, vba1)"
      and c: "cSize vba1 = cSize vba" by auto
    from wait(1) c w show ?thesis
      unfolding e by (simp add: uncompress.simps [of wr tot2 vba1 sink])
  next
    case (flushPanic processed vba1)
    with step.prems show ?thesis by simp
  next
    case (flushError processed vba1 err vba2 sink2)
    with step.prems show ?thesis by simp
  next
    case (negative processed vba1 vba2 sink2)
    with step.prems show ?thesis by simp
  next
    case (shiftPanic processed vba1 vba2 sink2)
    with step.prems show ?thesis by simp
  next
    case (continue processed vba1 vba2 sink2 vba3)
    from step.prems continue(7)
    have "uncompress wr (tot + processed) vba3 sink2 = Return (t, None, vba', sink')" by simp
    from step.IH [OF continue(1,2,3,4,5,6) this] show ?thesis .
  qed
qed

section \<open>A sample stream\<close>

lemma litRun_validChunk:
  assumes c: "c = h0 # h1 # litRunGroups lits [t0, t1]" and cl: "length c \<le> VBABuffSize"
    and sg: "chunkSignature (chunkState c) = 3" and fl: "chunkFlag (chunkState c) \<noteq> 0"
    and ds: "declaredSize (chunkState c) = length c"
    and b: "b = bitCountOf (length lits)"
    and len: "len = unat (Uint16 t0 t1) mod 2 ^ (16 - b) + 3"
    and off: "offset = unat (Uint16 t0 t1) div 2 ^ (16 - b) + 1"
    and ol: "offset \<le> length lits" and fit: "length lits + len \<le> VBABuffSize"
  shows "validChunk c \<and> chunkOutput c = lzCopy lits offset len"
proof -
  let ?s = "chunkState c"
  let ?enc = "litRunGroups lits [t0, t1]"
  note l = chunkState_simps(1) [OF cl] and lu = chunkState_simps(2) [of c]
  from l have l2: "2 \<le> length (compressedBuffer ?s)" by (simp add: VBABuffSize_def)
  have lc: "length c = 2 + length ?enc" by (simp add: c)
  have cb: "compressedBuffer ?s = [h0, h1] @ ?enc @ replicate (VBABuffSize - length c) 0"
    by (simp add: chunkState_def c)
  have at: "bytesAt (compressedBuffer ?s) 2 ?enc"
    unfolding bytesAt_def cb using cl lc by simp
  have e: "declaredSize ?s = 2 + length ?enc" using ds lc by simp
  have a4: "b = bitCountOf (0 + length lits)" and a7: "offset \<le> 0 + length lits"
    and a8: "0 + length lits + len \<le> length (uncompressedBuffer ?s)"
    using b ol fit lu by simp_all
  from chunkLoop_litRun [OF at e lu a4 len off a7 a8] obtain ubuf' where
    k: "chunkLoop (compressedBuffer ?s) (declaredSize ?s) 0 (2, uncompressedBuffer ?s, 0)
          = Return (declaredSize ?s, ubuf', length lits + len)"
    and t: "take (length lits + len) ubuf' = lzCopy lits offset len"
    by auto
  have u: "uncompressChunk ?s
      = Return (length c, None, ?s\<lparr>uncompressedBuffer := ubuf', uSize := length lits + len\<rparr>)"
    using fl k ds chunkState_simps(3) [of c] by (simp add: uncompressChunk_unfold [OF l2 sg])
  from u cl sg ds have "validChunk c" by (simp add: validChunk_def)
  moreover from u t have "chunkOutput c = lzCopy lits offset len" by (simp add: chunkOutput_def)
  ultimately show ?thesis ..
qed

text \<open>
  Two chunks. The first, of 14 bytes, holds the 8 literals Attribut and the copy token
  0x7000 (offset 8, length 3); the second, of 6 bytes, the literal A and the copy token 7
  (offset 1, length 10). The sample stream is the byte 1 and the two chunks.
\<close>

definition attributChunk :: "byte list" where
  "attributChunk = [0x0B, 0xB0, 0x00, 0x41, 0x74, 0x74, 0x72, 0x69, 0x62, 0x75, 0x74, 0x01, 0x00, 0x70]"

definition repeatChunk :: "byte list" where
  "repeatChunk = [0x03, 0xB0, 0x02, 0x41, 0x07, 0x00]"

definition sampleStream :: "byte list" where
  "sampleStream = 1 # attributChunk @ repeatChunk"

definition attributOutput :: "byte list" where
  "attributOutput = [0x41, 0x74, 0x74, 0x72, 0x69, 0x62, 0x75, 0x74, 0x41, 0x74, 0x74]"

lemma chunkHeader_chunkState:
  "chunkHeader (chunkState (h0 # h1 # enc)) = Uint16 h0 h1"
  by (simp add: chunkHeader_def chunkState_def)

lemma attributChunk_valid:
  "validChunk attributChunk \<and> chunkOutput attributChunk = attributOutput"
proof -
  let ?lits = "[0x41, 0x74, 0x74, 0x72, 0x69, 0x62, 0x75, 0x74] :: byte list"
  have e0: "litRunGroups [] [0x00, 0x70] = [0x01, 0x00, 0x70]"
    by (subst litRunGroups.simps) simp
  have e: "litRunGroups ?lits [0x00, 0x70] = 0x00 # ?lits @ [0x01, 0x00, 0x70]"
    by (subst litRunGroups.simps) (simp add: e0)
  have c: "attributChunk = 0x0B # 0xB0 # litRunGroups ?lits [0x00, 0x70]"
    by (simp add: attributChunk_def e)
  have h: "chunkHeader (chunkState attributChunk) = 0xB00B"
    unfolding c chunkHeader_chunkState by (simp add: Uint16_def)
  have a: "length attributChunk \<le> VBABuffSize" "chunkSignature (chunkState attributChunk) = 3"
    "chunkFlag (chunkState attributChunk) \<noteq> 0"
    "declaredSize (chunkState attributChunk) = length attributChunk"
    by (simp_all add: chunkSignature_header chunkFlag_def declaredSize_def h)
       (simp_all add: attributChunk_def VBABuffSize_def)
  have b0: "4 = bitCountOf (length ?lits)"
    using bitCountOf_bounds [of "length ?lits" 4] by simp
  have b1: "3 = unat (Uint16 0x00 0x70) mod 2 ^ (16 - 4) + 3"
    "8 = unat (Uint16 0x00 0x70) div 2 ^ (16 - 4) + 1"
    "8 \<le> length ?lits" "length ?lits + 3 \<le> VBABuffSize"
    by (simp_all add: Uint16_def VBABuffSize_def)
  note b = b0 b1
  have "lzCopy ?lits 8 3 = attributOutput"
    by (simp add: numeral_3_eq_3 attributOutput_def)
  with litRun_validChunk [OF c a b] show ?thesis by simp
qed

lemma repeatChunk_valid:
  "validChunk repeatChunk \<and> chunkOutput repeatChunk = replicate 11 0x41"
proof -
  have e: "litRunGroups [0x41] [0x07, 0x00] = [0x02, 0x41, 0x07, 0x00]"
    by (subst litRunGroups.simps) simp
  have c: "repeatChunk = 0x03 # 0xB0 # litRunGroups [0x41] [0x07, 0x00]"
    by (simp add: repeatChunk_def e)
  have h: "chunkHeader (chunkState repeatChunk) = 0xB003"
    unfolding c chunkHeader_chunkState by (simp add: Uint16_def)
  have a: "length repeatChunk \<le> VBABuffSize" "chunkSignature (chunkState repeatChunk) = 3"
    "chunkFlag (chunkState repeatChunk) \<noteq> 0"
    "declaredSize (chunkState repeatChunk) = length repeatChunk"
    by (simp_all add: chunkSignature_header chunkFlag_def declaredSize_def h)
       (simp_all add: repeatChunk_def VBABuffSize_def)
  have b: "4 = bitCountOf (length [0x41 :: byte])"
    "10 = unat (Uint16 0x07 0x00) mod 2 ^ (16 - 4) + 3"
    "1 = unat (Uint16 0x07 0x00) div 2 ^ (16 - 4) + 1"
    "1 \<le> length [0x41 :: byte]" "length [0x41 :: byte] + 10 \<le> VBABuffSize"
    by (simp_all add: bitCountOf_def Uint16_def VBABuffSize_def)
  have "lzCopy [0x41] 1 10 = replicate 11 0x41"
    using lzCopy_replicate [of 1 "0x41" 10] by simp
  with litRun_validChunk [OF c a b] show ?thesis by simp
qed

lemma sampleStream_valid: "validStream sampleStream [attributChunk, repeatChunk]"
  using attributChunk_valid repeatChunk_valid
  by (simp add: validStream_def sampleStream_def)
     (simp add: attributChunk_def repeatChunk_def marker_def)

lemma sampleStream_output:
  "streamOutput [attributChunk, repeatChunk] = [attributOutput, replicate 11 0x41]"
  using attributChunk_valid repeatChunk_valid
  by (simp add: streamOutput_def attributOutput_def)

lemma sampleStream_length:
  "length sampleStream = 21" "length attributChunk = 14" "length repeatChunk = 6"
  by (simp_all add: sampleStream_def attributChunk_def repeatChunk_def)

section \<open>Garbage before a valid stream\<close>

lemma carvLoop_split:
  assumes "carvLoop i (g1 @ g2) v = Return (0, False, vg)"
  shows "\<exists>v1. carvLoop i g1 v = Return (0, False, v1)
           \<and> carvLoop (i + length g1) g2 v1 = Return (0, False, vg)"
  using assms
proof (induction g1 arbitrary: i v)
  case Nil
  then show ?case by simp
next
  case (Cons b g1)
  show ?case
  proof (cases rule: carvLoop_Cons_cases [of v b i "g1 @ g2"])
    case panic
    with Cons.prems show ?thesis by simp
  next
    case (found w)
    with Cons.prems show ?thesis by simp
  next
    case (continue w)
    with Cons.prems have "carvLoop (i + 1) (g1 @ g2) w = Return (0, False, vg)" by simp
    from Cons.IH [OF this] obtain v1 where
      a: "carvLoop (i + 1) g1 w = Return (0, False, v1)"
      and b: "carvLoop (i + 1 + length g1) g2 v1 = Return (0, False, vg)" by blast
    from carvLoop_continue [OF continue(1,2), of i g1] a
    have "carvLoop i (b # g1) v = Return (0, False, v1)" by simp
    with b show ?thesis by simp
  qed
qed

lemma carvLoop_zero:
  assumes "carvLoop i p v = Return (0, False, w)"
  shows "carvLoop 0 p v = Return (0, False, w)"
  using assms carvLoop_index [of i p v]
  by (auto split: outcome.splits if_splits)

text \<open>
  The carver after the first \<open>n\<close> bytes of the garbage \<open>g\<close>, in which it finds no marker.
\<close>

definition skipping :: "byte list \<Rightarrow> VBAWriter \<Rightarrow> nat \<Rightarrow> bool" where
  "skipping g vba n = (n \<le> length g \<and> carvLoop 0 (take n g) NewWriter = Return (0, False, vba))"

lemma skipping_not_found:
  assumes "skipping g vba n"
  shows "\<not> marker_found vba"
proof -
  from assms have c: "carvLoop 0 (take n g) NewWriter = Return (0, False, vba)"
    by (simp add: skipping_def)
  from carvLoop_carving [OF NewWriter_carving, of 0 "take n g"] c
  have "carving NewWriter vba" by auto
  then show ?thesis by (simp add: carving_def)
qed

lemma skipping_end:
  assumes "nonMatching g" "skipping g vba (length g)"
  shows "tracking cs vba 0"
proof -
  from nonMatching_alike [OF assms(1)] assms(2) have "alike vba NewWriter"
    by (auto simp: skipping_def)
  then show ?thesis
    by (simp add: alike_def tracking_def NewWriter_def)
qed

lemma skipping_rest:
  assumes nm: "nonMatching g" and sk: "skipping g vba n"
  shows "\<exists>vg. carvLoop 0 (drop n g) vba = Return (0, False, vg) \<and> skipping g vg (length g)"
proof -
  from nonMatching_alike [OF nm] obtain vg where
    c: "carvLoop 0 g NewWriter = Return (0, False, vg)" by blast
  then have "carvLoop 0 (take n g @ drop n g) NewWriter = Return (0, False, vg)" by simp
  from carvLoop_split [OF this] sk
  have "carvLoop (0 + length (take n g)) (drop n g) vba = Return (0, False, vg)"
    by (auto simp: skipping_def)
  from carvLoop_zero [OF this] c show ?thesis by (auto simp: skipping_def)
qed

lemma skipping_step:
  assumes nm: "nonMatching g" and sk: "skipping g vba n" and fit: "n + m \<le> length g"
  shows "\<exists>v1. carvLoop 0 (take m (drop n g)) vba = Return (0, False, v1)
           \<and> skipping g v1 (n + m)"
proof -
  from nonMatching_alike [OF nm] obtain vg where
    c: "carvLoop 0 g NewWriter = Return (0, False, vg)" by blast
  have "g = take (n + m) g @ drop (n + m) g" by simp
  with c have "carvLoop 0 (take (n + m) g @ drop (n + m) g) NewWriter = Return (0, False, vg)"
    by simp
  from carvLoop_split [OF this] obtain v1 where
    a: "carvLoop 0 (take (n + m) g) NewWriter = Return (0, False, v1)" by blast
  have "take (n + m) g = take n g @ take m (drop n g)" by (simp add: take_add)
  with a have "carvLoop 0 (take n g @ take m (drop n g)) NewWriter = Return (0, False, v1)"
    by simp
  from carvLoop_split [OF this] sk
  have "carvLoop (0 + length (take n g)) (take m (drop n g)) vba = Return (0, False, v1)"
    by (auto simp: skipping_def)
  from carvLoop_zero [OF this] a fit show ?thesis by (auto simp: skipping_def)
qed

text \<open>
  The state of a session after \<open>n\<close> bytes of garbage followed by a valid stream.
\<close>

definition phaseG ::
  "byte list \<Rightarrow> byte list list \<Rightarrow> VBAWriter \<Rightarrow> byte list list \<Rightarrow> nat \<Rightarrow> bool" where
  "phaseG g cs vba sink n =
     (if n < length g then skipping g vba n \<and> sink = []
      else phase cs vba sink (n - length g))"

lemma dropCount_Return:
  assumes "dropCount r = dropCount (Return (m, e, v, s))"
  shows "\<exists>m'. r = Return (m', e, v, s)"
  using assms by (auto simp: dropCount_def split: outcome.splits)

lemma Write_phaseG:
  assumes v: "validStream s cs" and nm: "nonMatching g" and p: "phaseG g cs vba sink n"
    and seg: "b = take (length b) (drop n (g @ s))"
    and fit: "n + length b \<le> length g + length s"
  shows "\<exists>m vba' sink'. Write appendSink vba sink b = Return (m, None, vba', sink')
           \<and> phaseG g cs vba' sink' (n + length b)"
proof (cases "n < length g")
  case False
  with p have ph: "phase cs vba sink (n - length g)" by (simp add: phaseG_def)
  from False seg have seg': "b = take (length b) (drop (n - length g) s)" by simp
  from False fit have fit': "n - length g + length b \<le> length s" by simp
  from Write_phase [OF v ph seg' fit'] obtain vba' sink' where
    w: "Write appendSink vba sink b = Return (length b, None, vba', sink')"
    and p1: "phase cs vba' sink' (n - length g + length b)" by blast
  from False have e: "n - length g + length b = n + length b - length g" by simp
  from False p1 have "phaseG g cs vba' sink' (n + length b)"
    unfolding e by (simp add: phaseG_def)
  with w show ?thesis by blast
next
  case True
  with p have sk: "skipping g vba n" and e: "sink = []" by (simp_all add: phaseG_def)
  note nf = skipping_not_found [OF sk]
  show ?thesis
  proof (cases "n + length b < length g")
    case inside: True
    then have f: "n + length b \<le> length g" by simp
    from seg inside have b: "b = take (length b) (drop n g)" by simp
    from skipping_step [OF nm sk f] b obtain v1 where
      c: "carvLoop 0 b vba = Return (0, False, v1)" and s1: "skipping g v1 (n + length b)"
      by auto
    from c nf have "Write appendSink vba sink b = Return (length b, None, v1, sink)"
      by (simp add: Write_carving)
    moreover from s1 e inside have "phaseG g cs v1 sink (n + length b)"
      by (simp add: phaseG_def)
    ultimately show ?thesis by blast
  next
    case crossing: False
    let ?g2 = "drop n g"
    let ?p1 = "take (n + length b - length g) s"
    from seg True crossing have b: "b = ?g2 @ ?p1" by (simp add: add.commute)
    from skipping_rest [OF nm sk] obtain vg where
      c: "carvLoop 0 ?g2 vba = Return (0, False, vg)" and sg: "skipping g vg (length g)"
      by blast
    note nfg = skipping_not_found [OF sg]
    from skipping_end [OF nm sg] have ph0: "phase cs vg [] 0" by (simp add: phase_def)
    from fit True crossing have l1: "length ?p1 = n + length b - length g" by simp
    have seg1: "?p1 = take (length ?p1) (drop 0 s)" by (simp only: l1 drop_0)
    from l1 fit have fit1: "0 + length ?p1 \<le> length s" by simp
    from Write_phase [OF v ph0 seg1 fit1] obtain vba' sink' where
      w: "Write appendSink vg [] ?p1 = Return (length ?p1, None, vba', sink')"
      and p1: "phase cs vba' sink' (0 + length ?p1)" by blast
    have "dropCount (Write appendSink vba sink (?g2 @ ?p1))
        = dropCount (Write appendSink vg sink ?p1)"
      by (rule Write_garbage_prefix [OF c nf nfg])
    with w e have "dropCount (Write appendSink vba sink (?g2 @ ?p1))
        = dropCount (Return (length ?p1, None, vba', sink'))" by simp
    from dropCount_Return [OF this] b obtain m where
      w2: "Write appendSink vba sink b = Return (m, None, vba', sink')" by auto
    from p1 l1 crossing have "phaseG g cs vba' sink' (n + length b)"
      by (simp add: phaseG_def)
    with w2 show ?thesis by blast
  qed
qed

lemma take_append_split:
  assumes "b @ r = take (length b + length r) xs"
  shows "b = take (length b) xs" "r = take (length r) (drop (length b) xs)"
proof -
  have "take (length b) (b @ r) = take (length b) (take (length b + length r) xs)"
    by (simp only: assms [symmetric])
  then show "b = take (length b) xs" by (simp add: min_def)
  have "drop (length b) (b @ r) = drop (length b) (take (length b + length r) xs)"
    by (simp only: assms [symmetric])
  then show "r = take (length r) (drop (length b) xs)" by (simp add: drop_take)
qed

lemma WriteAll_phaseG:
  assumes v: "validStream s cs" and nm: "nonMatching g" and "phaseG g cs vba sink n"
    and "concat ws = take (length (concat ws)) (drop n (g @ s))"
    and "n + length (concat ws) \<le> length g + length s"
  shows "\<exists>vba' sink'. WriteAll appendSink vba sink ws = Return (None, vba', sink')
           \<and> phaseG g cs vba' sink' (n + length (concat ws))"
  using assms(3-)
proof (induction ws arbitrary: vba sink n)
  case Nil
  then show ?case by simp
next
  case (Cons b ws)
  let ?r = "concat ws"
  let ?q = "g @ s"
  from Cons.prems(3) have fit: "n + length b \<le> length g + length s"
    and fit2: "n + length b + length ?r \<le> length g + length s" by simp_all
  from Cons.prems(2) have e: "b @ ?r = take (length b + length ?r) (drop n ?q)"
    by (simp only: concat.simps length_append)
  note seg = take_append_split(1) [OF e]
  from take_append_split(2) [OF e]
  have rest: "?r = take (length ?r) (drop (n + length b) ?q)"
    by (simp only: drop_drop add.commute)
  from Write_phaseG [OF v nm Cons.prems(1) seg fit] obtain m vba1 sink1 where
    w: "Write appendSink vba sink b = Return (m, None, vba1, sink1)"
    and p1: "phaseG g cs vba1 sink1 (n + length b)" by blast
  from Cons.IH [OF p1 rest fit2] obtain vba' sink' where
    "WriteAll appendSink vba1 sink1 ws = Return (None, vba', sink')"
    "phaseG g cs vba' sink' (n + length b + length ?r)" by blast
  with w have "WriteAll appendSink vba sink (b # ws) = Return (None, vba', sink')"
    "phaseG g cs vba' sink' (n + length (concat (b # ws)))"
    by (simp_all add: add.assoc)
  then show ?case by blast
qed

lemma phase_expected:
  assumes v: "validStream s cs" and p: "phase cs vba sink (length s)"
  shows "sink = expectedOutput s cs"
proof -
  note s = validStreamD(1) [OF v] and l = validStreamD(3) [OF v]
  show ?thesis
  proof (cases "length s = 12")
    case True
    with p show ?thesis by (simp add: phase_def expectedOutput_def)
  next
    case False
    with l p obtain k where b: "buffered cs vba sink (length s - 1) k"
      and t: "settled cs vba k" by (auto simp: phase_def)
    from b s have j: "length (concat (take k cs)) + cSize vba = length (concat cs)"
      and kl: "k \<le> length cs" and o: "sink = streamOutput (take k cs)"
      by (simp_all add: buffered_def)
    have "k = length cs"
    proof (rule ccontr)
      assume "k \<noteq> length cs"
      with kl have k: "k < length cs" by simp
      with t have "cSize vba < length (cs ! k)" by (simp add: settled_def)
      moreover from j concat_take_drop_length [of k cs]
      have "cSize vba = length (concat (drop k cs))" by simp
      ultimately show False by (simp add: concat_drop_Suc [OF k])
    qed
    with o False show ?thesis by (simp add: expectedOutput_def)
  qed
qed

lemma nonMatching_skipping: "nonMatching g \<Longrightarrow> phaseG g cs NewWriter [] 0"
  by (simp add: phaseG_def skipping_def phase_def NewWriter_tracking)

text \<open>
  A session on garbage that does not match followed by a valid stream, however the bytes
  are cut into writes.
\<close>

lemma WriteAll_garbage_validStream:
  assumes v: "validStream s cs" and nm: "nonMatching g" and c: "concat ws = g @ s"
  shows "\<exists>vba'. WriteAll appendSink NewWriter [] ws = Return (None, vba', expectedOutput s cs)"
proof -
  from c have c1: "concat ws = take (length (concat ws)) (drop 0 (g @ s))"
    and c2: "0 + length (concat ws) \<le> length g + length s" by simp_all
  from WriteAll_phaseG [OF v nm nonMatching_skipping [OF nm] c1 c2] c obtain vba' sink' where
    w: "WriteAll appendSink NewWriter [] ws = Return (None, vba', sink')"
    and p: "phaseG g cs vba' sink' (length g + length s)" by auto
  from p have "phase cs vba' sink' (length s)" by (simp add: phaseG_def)
  from phase_expected [OF v this] w show ?thesis by blast
qed

lemma WriteAll_garbage_prefix_phase:
  assumes v: "validStream s cs" and nm: "nonMatching g" and c: "concat ps = g @ take i s"
    and i: "i \<le> length s"
  shows "\<exists>vba' sink'. WriteAll appendSink NewWriter [] ps = Return (None, vba', sink')
           \<and> phase cs vba' sink' i"
proof -
  from c i have n: "length (concat ps) = length g + i" by simp
  from c i have c1: "concat ps = take (length (concat ps)) (drop 0 (g @ s))"
    unfolding n by simp
  from n i have c2: "0 + length (concat ps) \<le> length g + length s" by simp
  from WriteAll_phaseG [OF v nm nonMatching_skipping [OF nm] c1 c2] obtain vba' sink' where
    w: "WriteAll appendSink NewWriter [] ps = Return (None, vba', sink')"
    and p: "phaseG g cs vba' sink' (0 + length (concat ps))" by blast
  from p have "phase cs vba' sink' i" unfolding n by (simp add: phaseG_def)
  with w show ?thesis by blast
qed

text \<open>Garbage in which the carver starts on a marker and gives up.\<close>

definition sampleGarbage :: "byte list" where
  "sampleGarbage = [0x67, 0x01, 0x41, 0x42, 0x43]"

lemma sampleGarbage_nonMatching: "nonMatching sampleGarbage"
  by (simp add: sampleGarbage_def nonMatching_def carvVBA_def carvStep_def marker_def mlen_def
        NewWriter_def VBABuffSize_def)

text \<open>
  Claim C8. A valid stream is the byte 1 and then valid chunks, the whole beginning with
  the marker; garbage that does not match may come before it. The session that delivers
  these bytes one per write and the session that delivers them in a single write end with
  the same result: no error, and the same writes to the sink. More generally every way of
  cutting the bytes into writes gives this result. The state persists across the writes:
  after the garbage and the first \<open>i < 12\<close> bytes of the stream, however they were cut into
  writes, the marker has not been found and the marker cursor is \<open>i\<close>; after the first 12
  bytes of the stream the marker has been found and the accumulation buffer holds the 11
  bytes that follow the byte 1.
\<close>

theorem C8_partial_write_tolerance:
  assumes "validStream s cs" and "nonMatching g"
  shows "sessionOutput (WriteAll appendSink NewWriter [] (map (\<lambda>x. [x]) (g @ s)))
           = sessionOutput (WriteAll appendSink NewWriter [] [g @ s])
       \<and> (concat ws = g @ s \<longrightarrow>
            sessionOutput (WriteAll appendSink NewWriter [] ws)
              = Return (None, expectedOutput s cs))
       \<and> (concat ps = g @ take i s \<and> i < 12 \<longrightarrow>
            (\<exists>v. WriteAll appendSink NewWriter [] ps = Return (None, v, [])
               \<and> \<not> marker_found v \<and> marker_cur v = i))
       \<and> (concat ps = g @ take 12 s \<longrightarrow>
            (\<exists>v. WriteAll appendSink NewWriter [] ps = Return (None, v, [])
               \<and> marker_found v \<and> cSize v = 11
               \<and> take 11 (compressedBuffer v) = take 11 (drop 1 s)))"
proof -
  have all: "sessionOutput (WriteAll appendSink NewWriter [] ws')
      = Return (None, expectedOutput s cs)" if "concat ws' = g @ s" for ws'
  proof -
    from WriteAll_garbage_validStream [OF assms that] obtain vba' where
      "WriteAll appendSink NewWriter [] ws' = Return (None, vba', expectedOutput s cs)" by blast
    then show ?thesis by (simp add: sessionOutput_def)
  qed
  have one: "concat (map (\<lambda>x. [x]) (g @ s)) = g @ s" by (induction "g @ s") simp_all
  have two: "concat [g @ s] = g @ s" by simp
  note l = validStreamD(3) [OF assms(1)] and q = validStreamD(1) [OF assms(1)]
  have three: "\<exists>v. WriteAll appendSink NewWriter [] ps = Return (None, v, [])
               \<and> \<not> marker_found v \<and> marker_cur v = i"
    if "concat ps = g @ take i s" "i < 12"
  proof -
    from that(2) l have "i \<le> length s" by simp
    from WriteAll_garbage_prefix_phase [OF assms that(1) this] obtain v sink' where
      "WriteAll appendSink NewWriter [] ps = Return (None, v, sink')" "phase cs v sink' i"
      by auto
    with that(2) show ?thesis by (auto simp: phase_def tracking_def)
  qed
  have four: "\<exists>v. WriteAll appendSink NewWriter [] ps = Return (None, v, [])
               \<and> marker_found v \<and> cSize v = 11
               \<and> take 11 (compressedBuffer v) = take 11 (drop 1 s)"
    if "concat ps = g @ take 12 s"
  proof -
    from WriteAll_garbage_prefix_phase [OF assms that l] obtain v sink' where
      w: "WriteAll appendSink NewWriter [] ps = Return (None, v, sink')" and "phase cs v sink' 12"
      by auto
    then have b: "buffered cs v [] 11 0" and e: "sink' = []" by (simp_all add: phase_def)
    from b have g: "marker_found v" "cSize v = 11"
      by (simp_all add: buffered_def)
    from b have "take (cSize v) (compressedBuffer v) = take (cSize v) (concat (drop 0 cs))"
      unfolding buffered_def by blast
    then have "take 11 (compressedBuffer v) = take 11 (drop 1 s)"
      unfolding g(2) using q by simp
    with w e g show ?thesis by blast
  qed
  from all [OF one] all [OF two] all three four show ?thesis by simp
qed

theorem C8_partial_write_tolerance_witness:
  "validStream sampleStream [attributChunk, repeatChunk] \<and> nonMatching sampleGarbage
   \<and> sessionOutput (WriteAll appendSink NewWriter []
         (map (\<lambda>x. [x]) (sampleGarbage @ sampleStream)))
       = Return (None, [attributOutput, replicate 11 0x41])
   \<and> sessionOutput (WriteAll appendSink NewWriter [] [sampleGarbage @ sampleStream])
       = Return (None, [attributOutput, replicate 11 0x41])
   \<and> concat [take 3 (sampleGarbage @ sampleStream), drop 3 (take 9 (sampleGarbage @ sampleStream)),
              drop 9 (sampleGarbage @ sampleStream)]
       = sampleGarbage @ sampleStream
   \<and> sessionOutput (WriteAll appendSink NewWriter []
         [take 3 (sampleGarbage @ sampleStream), drop 3 (take 9 (sampleGarbage @ sampleStream)),
          drop 9 (sampleGarbage @ sampleStream)])
       = Return (None, [attributOutput, replicate 11 0x41])
   \<and> concat [take 7 (sampleGarbage @ sampleStream), drop 7 (take 10 (sampleGarbage @ sampleStream))]
       = sampleGarbage @ take 5 sampleStream
   \<and> (\<exists>v. WriteAll appendSink NewWriter []
             [take 7 (sampleGarbage @ sampleStream), drop 7 (take 10 (sampleGarbage @ sampleStream))]
            = Return (None, v, [])
          \<and> \<not> marker_found v \<and> marker_cur v = 5)
   \<and> concat [take 7 (sampleGarbage @ sampleStream), drop 7 (take 17 (sampleGarbage @ sampleStream))]
       = sampleGarbage @ take 12 sampleStream
   \<and> (\<exists>v. WriteAll appendSink NewWriter []
             [take 7 (sampleGarbage @ sampleStream), drop 7 (take 17 (sampleGarbage @ sampleStream))]
            = Return (None, v, [])
          \<and> marker_found v \<and> cSize v = 11
          \<and> take 11 (compressedBuffer v) = take 11 attributChunk)"
proof -
  note v = sampleStream_valid and g = sampleGarbage_nonMatching
  let ?q = "sampleGarbage @ sampleStream"
  let ?ws = "[take 3 ?q, drop 3 (take 9 ?q), drop 9 ?q]"
  let ?p5 = "[take 7 ?q, drop 7 (take 10 ?q)]"
  let ?p12 = "[take 7 ?q, drop 7 (take 17 ?q)]"
  have e: "expectedOutput sampleStream [attributChunk, repeatChunk]
      = [attributOutput, replicate 11 0x41]"
    by (simp add: expectedOutput_def sampleStream_length sampleStream_output)
  have c1: "concat ?ws = ?q"
    by (simp add: sampleGarbage_def sampleStream_def attributChunk_def)
  have c2: "concat ?p5 = sampleGarbage @ take 5 sampleStream"
    by (simp add: sampleGarbage_def sampleStream_def attributChunk_def)
  have c3: "concat ?p12 = sampleGarbage @ take 12 sampleStream"
    by (simp add: sampleGarbage_def sampleStream_def attributChunk_def)
  have d: "take 11 (drop 1 sampleStream) = take 11 attributChunk"
    by (simp add: sampleStream_def attributChunk_def)
  note t1 = C8_partial_write_tolerance [OF v g, of "[?q]" ?p5 5]
  note t2 = C8_partial_write_tolerance [OF v g, of ?ws ?p12 12]
  from t1 have a1: "sessionOutput (WriteAll appendSink NewWriter [] (map (\<lambda>x. [x]) ?q))
       = sessionOutput (WriteAll appendSink NewWriter [] [?q])"
    and a2: "sessionOutput (WriteAll appendSink NewWriter [] [?q])
       = Return (None, [attributOutput, replicate 11 0x41])"
    unfolding e by simp_all
  from t1 c2 have a3: "\<exists>v. WriteAll appendSink NewWriter [] ?p5 = Return (None, v, [])
          \<and> \<not> marker_found v \<and> marker_cur v = 5"
    by (simp only:) simp
  from t2 c1 have a4: "sessionOutput (WriteAll appendSink NewWriter [] ?ws)
       = Return (None, [attributOutput, replicate 11 0x41])"
    unfolding e by (simp only:)
  from t2 c3 have a5: "\<exists>v. WriteAll appendSink NewWriter [] ?p12 = Return (None, v, [])
          \<and> marker_found v \<and> cSize v = 11
          \<and> take 11 (compressedBuffer v) = take 11 attributChunk"
    unfolding d by (simp only:)
  from a1 a2 have a0: "sessionOutput (WriteAll appendSink NewWriter [] (map (\<lambda>x. [x]) ?q))
       = Return (None, [attributOutput, replicate 11 0x41])" by simp
  from v g a0 a2 a3 a4 a5 c1 c2 c3 show ?thesis by blast
qed

lemma repeatChunk_buffered:
  "buffered [repeatChunk] (chunkState repeatChunk) [] 6 0"
  by (simp add: buffered_def chunkState_def NewWriter_def streamOutput_def VBABuffSize_def
        repeatChunk_def)

lemma repeatChunk_uncompress:
  "\<exists>t v'. uncompress appendSink 0 (chunkState repeatChunk) []
            = Return (t, None, v', [replicate 11 0x41])"
proof -
  have vc: "\<forall>c \<in> set [repeatChunk]. validChunk c" using repeatChunk_valid by simp
  from uncompress_buffered [OF vc repeatChunk_buffered, of 0] obtain tot' vba' k' where
    u: "uncompress appendSink 0 (chunkState repeatChunk) []
          = Return (tot', None, vba', streamOutput (take k' [repeatChunk]))"
    and b: "buffered [repeatChunk] vba' (streamOutput (take k' [repeatChunk])) 6 k'"
    and s: "settled [repeatChunk] vba' k'" by blast
  have "k' = 1"
  proof (rule ccontr)
    assume "k' \<noteq> 1"
    moreover from b have "k' \<le> 1" by (simp add: buffered_def)
    ultimately have z: "k' = 0" by simp
    with b have "cSize vba' = 6" by (simp add: buffered_def)
    with s z show False by (simp add: settled_def sampleStream_length)
  qed
  with u repeatChunk_valid have "uncompress appendSink 0 (chunkState repeatChunk) []
          = Return (tot', None, vba', [replicate 11 0x41])"
    by (simp add: streamOutput_def)
  then show ?thesis by blast
qed

lemma repeatChunk_decode:
  "\<exists>v1. uncompressChunk (chunkState repeatChunk) = Return (6, None, v1)
        \<and> uSize v1 = 11 \<and> length (uncompressedBuffer v1) = VBABuffSize
        \<and> take 11 (uncompressedBuffer v1) = replicate 11 0x41"
proof -
  have vc: "validChunk repeatChunk" and o: "chunkOutput repeatChunk = replicate 11 0x41"
    using repeatChunk_valid by simp_all
  have l: "length repeatChunk \<le> VBABuffSize" by (simp add: sampleStream_length VBABuffSize_def)
  from uncompressChunk_local [OF vc chunkState_simps(1) [OF l] chunkState_simps(2)
      chunkState_simps(4)] obtain ubuf' where
    "uncompressChunk (chunkState repeatChunk)
       = Return (length repeatChunk, None,
           (chunkState repeatChunk)\<lparr>uncompressedBuffer := ubuf',
              uSize := length (chunkOutput repeatChunk)\<rparr>)"
    "length ubuf' = VBABuffSize"
    "take (length (chunkOutput repeatChunk)) ubuf' = chunkOutput repeatChunk"
    by (auto simp: chunkState_simps)
  then show ?thesis unfolding o by (simp add: sampleStream_length)
qed

section \<open>The layout of a compressed chunk\<close>









lemma sampleStream_session:
  "sessionOutput (WriteAll appendSink NewWriter [] [sampleStream])
     = Return (None, [attributOutput, replicate 11 0x41])"
proof -
  have n: "nonMatching []" by (simp add: nonMatching_def carvVBA_def NewWriter_def)
  have c: "concat [sampleStream] = [] @ sampleStream" by simp
  from WriteAll_garbage_validStream [OF sampleStream_valid n c] obtain vba' where
    "WriteAll appendSink NewWriter [] [sampleStream]
       = Return (None, vba', expectedOutput sampleStream [attributChunk, repeatChunk])" by blast
  then show ?thesis
    by (simp add: sessionOutput_def expectedOutput_def sampleStream_length sampleStream_output)
qed






lemma carv_missed:
  "\<exists>v. carvLoop 0 (0x01 # sampleStream) NewWriter = Return (0, False, v)"
  "\<exists>v. carvLoop 0 ([0x67, 0x01] @ sampleStream) NewWriter = Return (0, False, v)"
  "\<exists>v w. carvLoop 0 [0x01] NewWriter = Return (0, False, v) \<and> \<not> marker_found v
       \<and> carvLoop 0 sampleStream v = Return (0, False, w)"
  by (simp_all add: carvStep_def marker_def mlen_def NewWriter_def VBABuffSize_def
        sampleStream_def attributChunk_def repeatChunk_def)

section \<open>One write for each chunk that decodes\<close>

lemma uncompressChunk_bounds:
  assumes len: "length (compressedBuffer vba) = VBABuffSize"
      "length (uncompressedBuffer vba) = VBABuffSize"
    and ok: "uncompressChunk vba = Return (processed, None, v1)"
  shows "uSize v1 \<le> length (uncompressedBuffer v1) \<and> cSize v1 = cSize vba
       \<and> length (compressedBuffer v1) = VBABuffSize"
proof -
  from len(1) have l2: "2 \<le> length (compressedBuffer vba)" by (simp add: VBABuffSize_def)
  have sig: "chunkSignature vba = 3"
  proof (rule ccontr)
    assume "chunkSignature vba \<noteq> 3"
    from uncompressChunk_bad_signature [OF l2 this] ok show False by simp
  qed
  note u = ok [unfolded uncompressChunk_unfold [OF l2 sig]]
  show ?thesis
  proof (cases "cSize vba < declaredSize vba \<or> chunkFlag vba = 0")
    case True
    with u len show ?thesis
      by (auto simp: VBABuffSize_def split: if_splits)
  next
    case False
    with u obtain cur ubuf us where
      c: "chunkLoop (compressedBuffer vba) (declaredSize vba) 0 (2, uncompressedBuffer vba, 0)
            = Return (cur, ubuf, us)"
      and v: "v1 = vba\<lparr>uncompressedBuffer := ubuf, uSize := us\<rparr>"
      by (auto split: outcome.splits)
    from chunkLoop_inv [OF c] declaredSize_bounds(1) [of vba] len(2)
    have "us \<le> VBABuffSize" "length ubuf = VBABuffSize" by simp_all
    with v len show ?thesis by simp
  qed
qed

text \<open>
  The step of the assembler at a chunk that decodes: its bytes are written, once; then
  the chunk is taken out of the buffer and only then is the next chunk attempted, or, when
  the decoder has read past the bytes in the buffer, the call ends with the
  negative-copy-size error.
\<close>

lemma uncompress_decoded:
  assumes len: "length (compressedBuffer vb) = VBABuffSize"
      "length (uncompressedBuffer vb) = VBABuffSize"
    and cs: "cSize vb \<le> VBABuffSize" "0 < cSize vb"
    and ok: "uncompressChunk vb = Return (processed, None, v1)" and nz: "processed \<noteq> 0"
  shows "if processed \<le> cSize vb
         then \<exists>v3. uncompress appendSink tot vb out
                 = uncompress appendSink (tot + processed) v3
                     (if uSize v1 = 0 then out
                      else out @ [take (uSize v1) (uncompressedBuffer v1)])
               \<and> uSize v3 = 0 \<and> cSize v3 = cSize vb - processed
         else uncompress appendSink tot vb out
                 = Return (tot + processed, Some NegativeCopySize, v1\<lparr>uSize := 0\<rparr>,
                     if uSize v1 = 0 then out
                     else out @ [take (uSize v1) (uncompressedBuffer v1)])"
proof -
  note b = uncompressChunk_bounds [OF len ok]
  let ?out = "if uSize v1 = 0 then out else out @ [take (uSize v1) (uncompressedBuffer v1)]"
  let ?v2 = "v1\<lparr>uSize := 0\<rparr>"
  from b have f: "flushChunk appendSink v1 out = Return (None, ?v2, ?out)"
    by (intro flushChunk_appendSink) simp
  show ?thesis
  proof (cases "processed \<le> cSize vb")
    case True
    from shiftRemaining_Return [of ?v2 processed] b cs True obtain cbuf' where
      sh: "shiftRemaining ?v2 processed
             = Return (?v2\<lparr>compressedBuffer := cbuf', cSize := cSize ?v2 - processed\<rparr>)"
      by auto
    let ?v3 = "?v2\<lparr>compressedBuffer := cbuf', cSize := cSize ?v2 - processed\<rparr>"
    have "uncompress appendSink tot vb out = uncompress appendSink (tot + processed) ?v3 ?out"
      using cs(2) ok nz True f sh b
      by (simp add: uncompress.simps [of appendSink tot vb out])
    moreover have "uSize ?v3 = 0" "cSize ?v3 = cSize vb - processed" using b by simp_all
    ultimately have "\<exists>v3. uncompress appendSink tot vb out
                 = uncompress appendSink (tot + processed) v3 ?out
               \<and> uSize v3 = 0 \<and> cSize v3 = cSize vb - processed" by blast
    with True show ?thesis by (simp only: if_True)
  next
    case False
    have "uncompress appendSink tot vb out
        = Return (tot + processed, Some NegativeCopySize, ?v2, ?out)"
      using cs(2) ok nz False f b
      by (simp add: uncompress.simps [of appendSink tot vb out])
    with False show ?thesis by (simp only: if_False)
  qed
qed

section \<open>A write call after the negative-copy-size error\<close>

lemma straddle_token_any:
  assumes "length u = 4098"
  shows "copyTokenStep straddleBuf 0 4 (u[0 := 0x41]) (Suc 0)
     = Return (u[0 := 0x41, Suc 0 := 0x41, 2 := 0x41, 3 := 0x41], 4)"
proof -
  have "copyTokenStep straddleBuf 0 4 (u[0 := 0x41]) (Suc 0)
      = copyLoop 0 3 (u[0 := 0x41]) (Suc 0)"
    by (simp add: copyTokenStep_def copyTokenHelp_def Let_def tokenLength_def tokenOffset_def
          Uint16_def straddleBuf_simps)
  also have "\<dots> = Return (u[0 := 0x41, Suc 0 := 0x41, 2 := 0x41, 3 := 0x41], 4)"
    using assms by (simp add: copyLoop.simps numeral_2_eq_2 [symmetric])
  finally show ?thesis .
qed

lemma straddle_chunkLoop_any:
  assumes "length u = 4098"
  shows "chunkLoop straddleBuf 5 0 (2, u, 0)
     = Return (6, u[0 := 0x41, Suc 0 := 0x41, 2 := 0x41, 3 := 0x41], 4)"
proof -
  have "itemLoop straddleBuf 5 0 2 0 (3, u, 0)
      = itemLoop straddleBuf 5 0 2 (Suc 0) (4, u[0 := 0x41], Suc 0)"
    using assms by (subst itemLoop_literal) (simp_all add: straddleBuf_simps)
  also have "\<dots> = itemLoop straddleBuf 5 0 2 2
      (6, u[0 := 0x41, Suc 0 := 0x41, 2 := 0x41, 3 := 0x41], 4)"
    by (subst itemLoop_copy)
       (simp_all add: straddle_token_any [OF assms] numeral_2_eq_2 [symmetric])
  also have "\<dots> = Return (6, u[0 := 0x41, Suc 0 := 0x41, 2 := 0x41, 3 := 0x41], 4)"
    by (simp add: itemLoop_skip itemLoop_done numeral_2_eq_2 [symmetric])
  finally have i: "itemLoop straddleBuf 5 0 2 0 (3, u, 0)
      = Return (6, u[0 := 0x41, Suc 0 := 0x41, 2 := 0x41, 3 := 0x41], 4)" .
  show ?thesis
    by (subst chunkLoop_step) (simp_all add: i chunkLoop_stop straddleBuf_simps)
qed

lemma straddle_decode:
  assumes c: "compressedBuffer v = straddleBuf" and u: "length (uncompressedBuffer v) = 4098"
    and s: "5 \<le> cSize v"
  shows "uncompressChunk v
     = Return (6, None,
         v\<lparr>uncompressedBuffer :=
             (uncompressedBuffer v)[0 := 0x41, 1 := 0x41, 2 := 0x41, 3 := 0x41], uSize := 4\<rparr>)"
proof -
  have h: "chunkHeader v = 0xB002"
    by (simp add: chunkHeader_def c straddleBuf_simps Uint16_def)
  have l: "2 \<le> length (compressedBuffer v)" by (simp add: c straddleBuf_simps)
  have g: "chunkSignature v = 3" by (simp add: h chunkSignature_header)
  have f: "chunkFlag v \<noteq> 0" by (simp add: h chunkFlag_def)
  have d: "declaredSize v = 5" by (simp add: h declaredSize_def)
  from s show ?thesis
    by (simp add: uncompressChunk_unfold [OF l g] f d c straddle_chunkLoop_any [OF u])
qed

lemma take4_update:
  assumes "4 \<le> length u"
  shows "take 4 (u[0 := a, Suc 0 := b, 2 := c, 3 := d]) = [a, b, c, d]"
  using assms
  by (cases u; cases "tl u"; cases "tl (tl u)"; cases "tl (tl (tl u))") simp_all

text \<open>
  A writer that has found its marker and holds the first four bytes of the chunk of
  \<open>straddleState\<close>, and the same writer after a write of the byte 0 has ended with the
  negative-copy-size error.
\<close>

definition heldState :: VBAWriter where
  "heldState = straddleState\<lparr>cSize := 4\<rparr>"

definition afterError :: VBAWriter where
  "afterError =
     straddleState\<lparr>cSize := 5,
       uncompressedBuffer := (replicate 4098 0)[0 := 0x41, 1 := 0x41, 2 := 0x41, 3 := 0x41]\<rparr>"

lemma straddle_fill:
  "go_copy straddleBuf 4 5 [0] = straddleBuf" "go_copy straddleBuf 5 6 [0] = straddleBuf"
  by (simp_all add: go_copy_def straddleBuf_def)

lemma heldState_write:
  "Write appendSink heldState [] [0]
     = Return (6, Some NegativeCopySize, afterError, [[0x41, 0x41, 0x41, 0x41]])"
proof -
  let ?v = "heldState\<lparr>compressedBuffer := straddleBuf, cSize := 5\<rparr>"
  have f: "fillBuffer [0] 0 heldState = Return (1, ?v)"
    by (simp add: fillBuffer_def Let_def heldState_def straddleState_simps straddleBuf_simps
          VBABuffSize_def straddle_fill)
  have d: "uncompressChunk ?v
     = Return (6, None,
         ?v\<lparr>uncompressedBuffer := (uncompressedBuffer ?v)[0 := 0x41, 1 := 0x41, 2 := 0x41, 3 := 0x41],
            uSize := 4\<rparr>)"
    by (rule straddle_decode) (simp_all add: heldState_def straddleState_simps)
  have l: "length (compressedBuffer ?v) = VBABuffSize" "length (uncompressedBuffer ?v) = VBABuffSize"
    "cSize ?v \<le> VBABuffSize" "0 < cSize ?v"
    by (simp_all add: heldState_def straddleState_simps straddleBuf_simps VBABuffSize_def)
  from uncompress_decoded [OF l d, of 0 "[]"]
  have u: "uncompress appendSink 0 ?v []
      = Return (6, Some NegativeCopySize, afterError, [[0x41, 0x41, 0x41, 0x41]])"
    by (simp add: heldState_def afterError_def straddleState_simps take4_update
          straddleState_def NewWriter_def VBABuffSize_def)
  have m: "marker_found heldState" by (simp add: heldState_def straddleState_def)
  show ?thesis
    using m f u
    by (simp add: Write_def WriteLoop.simps [of appendSink "[0]" 0 heldState "[]"])
qed

lemma afterError_write:
  "sessionOutput (dropCount (Write appendSink afterError [[0x41, 0x41, 0x41, 0x41]] [0]))
     = Return (None, [[0x41, 0x41, 0x41, 0x41], [0x41, 0x41, 0x41, 0x41]])"
proof -
  let ?out = "[[0x41, 0x41, 0x41, 0x41]] :: byte list list"
  let ?v = "afterError\<lparr>compressedBuffer := straddleBuf, cSize := 6\<rparr>"
  have f: "fillBuffer [0] 0 afterError = Return (1, ?v)"
    by (simp add: fillBuffer_def Let_def afterError_def straddleState_simps straddleBuf_simps
          VBABuffSize_def straddle_fill)
  have d: "uncompressChunk ?v
     = Return (6, None,
         ?v\<lparr>uncompressedBuffer := (uncompressedBuffer ?v)[0 := 0x41, 1 := 0x41, 2 := 0x41, 3 := 0x41],
            uSize := 4\<rparr>)"
    by (rule straddle_decode) (simp_all add: afterError_def straddleState_simps)
  have l: "length (compressedBuffer ?v) = VBABuffSize" "length (uncompressedBuffer ?v) = VBABuffSize"
    "cSize ?v \<le> VBABuffSize" "0 < cSize ?v"
    by (simp_all add: afterError_def straddleState_simps straddleBuf_simps VBABuffSize_def)
  from uncompress_decoded [OF l d, of 0 ?out] obtain v3 where
    u: "uncompress appendSink 0 ?v ?out
          = uncompress appendSink 6 v3 (?out @ [[0x41, 0x41, 0x41, 0x41]])"
    and z: "cSize v3 = 0"
    by (auto simp: afterError_def take4_update straddleState_simps)
  from z have e: "uncompress appendSink 6 v3 (?out @ [[0x41, 0x41, 0x41, 0x41]])
      = Return (6, None, v3, ?out @ [[0x41, 0x41, 0x41, 0x41]])"
    by (simp add: uncompress.simps [of appendSink 6 v3])
  have w2: "WriteLoop appendSink [0] 1 v3 (?out @ [[0x41, 0x41, 0x41, 0x41]])
      = Return (1, None, v3, ?out @ [[0x41, 0x41, 0x41, 0x41]])"
    by (subst WriteLoop.simps) simp
  have m: "marker_found afterError" by (simp add: afterError_def straddleState_def)
  have "Write appendSink afterError ?out [0]
      = Return (1, None, v3, ?out @ [[0x41, 0x41, 0x41, 0x41]])"
    using m f u e w2
    by (simp add: Write_def WriteLoop.simps [of appendSink "[0]" 0 afterError ?out])
  then show ?thesis by (simp add: dropCount_def sessionOutput_def)
qed

section \<open>A chunk that is complete when the marker is confirmed\<close>

text \<open>
  The chunk of 11 bytes that the marker itself can be: a header that declares 11 bytes,
  the flag byte 0 and the 8 literals Attribut.
\<close>

definition markerChunk :: "byte list" where
  "markerChunk = [0x08, 0xB0, 0x00, 0x41, 0x74, 0x74, 0x72, 0x69, 0x62, 0x75, 0x74]"

lemma markerChunk_valid:
  "validChunk markerChunk
   \<and> chunkOutput markerChunk = [0x41, 0x74, 0x74, 0x72, 0x69, 0x62, 0x75, 0x74]"
proof -
  let ?s = "chunkState markerChunk"
  let ?c = "compressedBuffer ?s"
  let ?u = "uncompressedBuffer ?s"
  let ?lits = "[0x41, 0x74, 0x74, 0x72, 0x69, 0x62, 0x75, 0x74] :: byte list"
  have cl: "length markerChunk \<le> VBABuffSize" "length markerChunk = 11"
    by (simp_all add: markerChunk_def VBABuffSize_def)
  note l = chunkState_simps(1) [OF cl(1)] and lu = chunkState_simps(2) [of markerChunk]
  have cb: "?c = markerChunk @ replicate (VBABuffSize - 11) 0"
    by (simp add: chunkState_def cl)
  have h: "chunkHeader ?s = 0xB008"
    by (simp add: markerChunk_def chunkHeader_chunkState Uint16_def)
  from l have l2: "2 \<le> length ?c" by (simp add: VBABuffSize_def)
  have g: "chunkSignature ?s = 3" by (simp add: h chunkSignature_header)
  have f: "chunkFlag ?s \<noteq> 0" by (simp add: h chunkFlag_def)
  have d: "declaredSize ?s = 11" by (simp add: h declaredSize_def)
  have c2: "?c ! 2 = 0" "2 < length ?c" "take 8 (drop 3 ?c) = ?lits"
    unfolding cb by (simp_all add: markerChunk_def VBABuffSize_def)
  have "itemLoop ?c 11 0 0 0 (3, ?u, 0)
      = itemLoop ?c 11 0 0 (0 + 8) (3 + 8, putBytes ?u 0 (take 8 (drop 3 ?c)), 0 + 8)"
    using l lu by (intro itemLoop_literals) (simp_all add: VBABuffSize_def)
  also have "\<dots> = Return (11, putBytes ?u 0 ?lits, 8)"
    by (simp add: itemLoop_done c2)
  finally have i: "itemLoop ?c 11 0 0 0 (3, ?u, 0) = Return (11, putBytes ?u 0 ?lits, 8)" .
  have k: "chunkLoop ?c 11 0 (2, ?u, 0) = Return (11, putBytes ?u 0 ?lits, 8)"
    by (subst chunkLoop_step) (simp_all add: c2 i chunkLoop_stop)
  have u: "uncompressChunk ?s
      = Return (11, None, ?s\<lparr>uncompressedBuffer := putBytes ?u 0 ?lits, uSize := 8\<rparr>)"
    using f k d chunkState_simps(3) [of markerChunk] cl
    by (simp add: uncompressChunk_unfold [OF l2 g])
  have t: "take 8 (putBytes ?u 0 ?lits) = ?lits"
    using lu by (simp add: putBytes_def VBABuffSize_def)
  from u cl g d have "validChunk markerChunk" by (simp add: validChunk_def)
  moreover from u t have "chunkOutput markerChunk = ?lits" by (simp add: chunkOutput_def)
  ultimately show ?thesis ..
qed

lemma markerStream_valid: "validStream (1 # markerChunk) [markerChunk]"
  using markerChunk_valid
  by (simp add: validStream_def) (simp add: markerChunk_def marker_def)

lemma markerStream_session:
  "sessionOutput (WriteAll appendSink NewWriter [] [1 # markerChunk]) = Return (None, [])"
proof -
  have n: "nonMatching []" by (simp add: nonMatching_def carvVBA_def NewWriter_def)
  have c: "concat [1 # markerChunk] = [] @ 1 # markerChunk" by simp
  from WriteAll_garbage_validStream [OF markerStream_valid n c] obtain vba' where
    "WriteAll appendSink NewWriter [] [1 # markerChunk]
       = Return (None, vba', expectedOutput (1 # markerChunk) [markerChunk])" by blast
  then show ?thesis
    by (simp add: sessionOutput_def expectedOutput_def markerChunk_def)
qed

text \<open>
  Claim C7 at garbage that ends in the beginning of a marker. The sample stream alone is
  decompressed to its two chunks. With the byte 1 before it, in the same write or in a
  write of its own, or with the bytes 0x67 and 1 before it, \<open>carvVBA\<close> takes the byte 1 of
  the garbage for the beginning of the marker and the byte 1 of the stream for the first
  of the two bytes it accepts unseen; at the next mismatch it starts again after the bytes
  it has read, and the marker is not found: the session ends with no error and has
  written nothing.
\<close>

theorem C7_partial_match_hides_marker:
  "sessionOutput (WriteAll appendSink NewWriter [] [sampleStream])
     = Return (None, [attributOutput, replicate 11 0x41])
   \<and> sessionOutput (WriteAll appendSink NewWriter [] [0x01 # sampleStream]) = Return (None, [])
   \<and> sessionOutput (WriteAll appendSink NewWriter [] [[0x01], sampleStream]) = Return (None, [])
   \<and> sessionOutput (WriteAll appendSink NewWriter [] [[0x67, 0x01] @ sampleStream])
       = Return (None, [])"
proof -
  have n: "\<not> marker_found NewWriter" by (simp add: NewWriter_def)
  from carv_missed(1) obtain v1 where
    c1: "carvLoop 0 (0x01 # sampleStream) NewWriter = Return (0, False, v1)" by blast
  from carv_missed(2) obtain v2 where
    c2: "carvLoop 0 ([0x67, 0x01] @ sampleStream) NewWriter = Return (0, False, v2)" by blast
  from carv_missed(3) obtain v3 w3 where
    c3: "carvLoop 0 [0x01] NewWriter = Return (0, False, v3)" "\<not> marker_found v3"
      "carvLoop 0 sampleStream v3 = Return (0, False, w3)" by blast
  have a: "sessionOutput (WriteAll appendSink NewWriter [] [0x01 # sampleStream]) = Return (None, [])"
    using c1 by (simp add: Write_carving [OF n] sessionOutput_def)
  have b: "sessionOutput (WriteAll appendSink NewWriter [] [[0x67, 0x01] @ sampleStream])
      = Return (None, [])"
    using c2 by (simp add: Write_carving [OF n] sessionOutput_def)
  have "Write appendSink NewWriter [] [0x01] = Return (1, None, v3, [])"
    using c3(1) by (simp add: Write_carving [OF n])
  moreover have "Write appendSink v3 [] sampleStream = Return (length sampleStream, None, w3, [])"
    using c3(3) by (simp add: Write_carving [OF c3(2)])
  ultimately have c: "sessionOutput (WriteAll appendSink NewWriter [] [[0x01], sampleStream])
      = Return (None, [])"
    by (simp add: sessionOutput_def)
  from sampleStream_session a b c show ?thesis by blast
qed

text \<open>
  Claim C10, as amended. In a session on a valid stream, after garbage that does not match
  and however the bytes are cut into writes, once a byte has followed the 12 bytes of the
  marker the sink holds after every write exactly one write for each chunk that is
  complete in the bytes delivered (none for a chunk without output), in chunk order, and
  nothing else. In any state and for any sink, a call of \<open>uncompress\<close> that returns without
  error leaves a state in which a second call writes nothing and changes nothing. And when
  a chunk decodes, \<open>uncompress\<close> writes its bytes, once; then it takes the compressed bytes
  of the chunk out of the buffer and resets \<open>uSize\<close> before it goes on to the next chunk, or,
  when the decoder has read past the bytes in the buffer, it ends the call with the
  negative-copy-size error.
\<close>

theorem C10_flush_once_in_order:
  assumes "validStream s cs" and "nonMatching g" and "concat ws = g @ take i s"
    and "12 < i" and "i \<le> length s"
  shows "(\<exists>vba'. WriteAll appendSink NewWriter [] ws
            = Return (None, vba', flushedOutput cs (i - 1)))
       \<and> (uncompress wr tot vba sink = Return (t, None, v', sink') \<longrightarrow>
            uncompress wr tot2 v' sink' = Return (tot2, None, v', sink'))
       \<and> (length (compressedBuffer vb) = VBABuffSize
            \<and> length (uncompressedBuffer vb) = VBABuffSize
            \<and> cSize vb \<le> VBABuffSize \<and> 0 < cSize vb
            \<and> uncompressChunk vb = Return (processed, None, v1) \<and> processed \<noteq> 0 \<longrightarrow>
          (if processed \<le> cSize vb
           then \<exists>v3. uncompress appendSink tot vb out
                   = uncompress appendSink (tot + processed) v3
                       (if uSize v1 = 0 then out
                        else out @ [take (uSize v1) (uncompressedBuffer v1)])
                 \<and> uSize v3 = 0 \<and> cSize v3 = cSize vb - processed
           else uncompress appendSink tot vb out
                   = Return (tot + processed, Some NegativeCopySize, v1\<lparr>uSize := 0\<rparr>,
                       if uSize v1 = 0 then out
                       else out @ [take (uSize v1) (uncompressedBuffer v1)])))"
proof -
  from WriteAll_garbage_prefix_phase [OF assms(1,2,3,5)] obtain vba' written where
    w: "WriteAll appendSink NewWriter [] ws = Return (None, vba', written)"
    and p: "phase cs vba' written i" by blast
  from phase_output [OF p assms(4)] w
  have a: "\<exists>vba'. WriteAll appendSink NewWriter [] ws
            = Return (None, vba', flushedOutput cs (i - 1))" by blast
  have b: "uncompress wr tot vba sink = Return (t, None, v', sink') \<longrightarrow>
            uncompress wr tot2 v' sink' = Return (tot2, None, v', sink')"
    using uncompress_again [of wr tot vba sink t v' sink' tot2] by blast
  have c: "length (compressedBuffer vb) = VBABuffSize
            \<and> length (uncompressedBuffer vb) = VBABuffSize
            \<and> cSize vb \<le> VBABuffSize \<and> 0 < cSize vb
            \<and> uncompressChunk vb = Return (processed, None, v1) \<and> processed \<noteq> 0 \<longrightarrow>
          (if processed \<le> cSize vb
           then \<exists>v3. uncompress appendSink tot vb out
                   = uncompress appendSink (tot + processed) v3
                       (if uSize v1 = 0 then out
                        else out @ [take (uSize v1) (uncompressedBuffer v1)])
                 \<and> uSize v3 = 0 \<and> cSize v3 = cSize vb - processed
           else uncompress appendSink tot vb out
                   = Return (tot + processed, Some NegativeCopySize, v1\<lparr>uSize := 0\<rparr>,
                       if uSize v1 = 0 then out
                       else out @ [take (uSize v1) (uncompressedBuffer v1)]))"
    using uncompress_decoded [of vb processed v1 tot out] by blast
  from a b c show ?thesis by blast
qed

theorem C10_flush_once_in_order_witness:
  "validStream sampleStream [attributChunk, repeatChunk] \<and> nonMatching sampleGarbage
   \<and> concat [take 7 (sampleGarbage @ sampleStream), drop 7 (take 21 (sampleGarbage @ sampleStream))]
       = sampleGarbage @ take 16 sampleStream
   \<and> (12::nat) < 16 \<and> 16 \<le> length sampleStream
   \<and> (\<exists>vba'. WriteAll appendSink NewWriter []
                 [take 7 (sampleGarbage @ sampleStream),
                  drop 7 (take 21 (sampleGarbage @ sampleStream))]
          = Return (None, vba', [attributOutput]))
   \<and> (\<exists>t v'. uncompress appendSink 0 (chunkState repeatChunk) []
                = Return (t, None, v', [replicate 11 0x41])
          \<and> uncompress appendSink 0 v' [replicate 11 0x41]
                = Return (0, None, v', [replicate 11 0x41]))
   \<and> length (compressedBuffer (chunkState repeatChunk)) = VBABuffSize
   \<and> length (uncompressedBuffer (chunkState repeatChunk)) = VBABuffSize
   \<and> cSize (chunkState repeatChunk) \<le> VBABuffSize \<and> 0 < cSize (chunkState repeatChunk)
   \<and> (\<exists>v1 v3. uncompressChunk (chunkState repeatChunk) = Return (6, None, v1)
          \<and> 6 \<le> cSize (chunkState repeatChunk)
          \<and> uncompress appendSink 0 (chunkState repeatChunk) []
               = uncompress appendSink 6 v3 [replicate 11 0x41]
          \<and> uSize v3 = 0 \<and> cSize v3 = 0)"
proof -
  note v = sampleStream_valid and g = sampleGarbage_nonMatching
  let ?q = "sampleGarbage @ sampleStream"
  let ?ws = "[take 7 ?q, drop 7 (take 21 ?q)]"
  have c: "concat ?ws = sampleGarbage @ take 16 sampleStream"
    by (simp add: sampleGarbage_def sampleStream_def attributChunk_def repeatChunk_def)
  have i: "(12::nat) < 16" "16 \<le> length sampleStream" by (simp_all add: sampleStream_length)
  have f: "flushedOutput [attributChunk, repeatChunk] (16 - 1) = [attributOutput]"
    using attributChunk_valid
    by (simp add: flushedOutput_def sampleStream_length streamOutput_def attributOutput_def)
  from repeatChunk_uncompress obtain t v' where
    u: "uncompress appendSink 0 (chunkState repeatChunk) []
          = Return (t, None, v', [replicate 11 0x41])" by blast
  from repeatChunk_decode obtain v1 where
    d: "uncompressChunk (chunkState repeatChunk) = Return (6, None, v1)"
    "uSize v1 = 11" "length (uncompressedBuffer v1) = VBABuffSize"
    "take 11 (uncompressedBuffer v1) = replicate 11 0x41" by blast
  have l: "length (compressedBuffer (chunkState repeatChunk)) = VBABuffSize"
    "length (uncompressedBuffer (chunkState repeatChunk)) = VBABuffSize"
    "cSize (chunkState repeatChunk) \<le> VBABuffSize" "0 < cSize (chunkState repeatChunk)"
    "6 \<le> cSize (chunkState repeatChunk)"
    by (simp_all add: chunkState_def sampleStream_length VBABuffSize_def NewWriter_def)
  have cs6: "cSize (chunkState repeatChunk) = 6"
    by (simp add: chunkState_def sampleStream_length)
  note th = C10_flush_once_in_order [OF v g c i, where wr = appendSink and tot = 0
      and vba = "chunkState repeatChunk" and sink = "[]" and t = t and v' = v'
      and sink' = "[replicate 11 0x41]" and ?tot2.0 = 0 and vb = "chunkState repeatChunk"
      and processed = 6 and ?v1.0 = v1 and out = "[]"]
  from th have p1: "\<exists>vba'. WriteAll appendSink NewWriter [] ?ws = Return (None, vba', [attributOutput])"
    unfolding f by blast
  from th u have p2: "uncompress appendSink 0 v' [replicate 11 0x41]
                = Return (0, None, v', [replicate 11 0x41])" by blast
  from th d(1) l have "\<exists>v3. uncompress appendSink 0 (chunkState repeatChunk) []
                   = uncompress appendSink (0 + 6) v3
                       (if uSize v1 = 0 then []
                        else [] @ [take (uSize v1) (uncompressedBuffer v1)])
               \<and> uSize v3 = 0 \<and> cSize v3 = cSize (chunkState repeatChunk) - 6"
    by simp
  then obtain v3 where p3: "uncompress appendSink 0 (chunkState repeatChunk) []
               = uncompress appendSink 6 v3 [replicate 11 0x41]" "uSize v3 = 0" "cSize v3 = 0"
    using d(2,4) cs6 by auto
  from v g c i p1 u p2 d(1) l p3 show ?thesis by blast
qed

text \<open>
  Counterexample to C10 as stated. A writer that holds the first four bytes of a chunk
  whose copy token begins at the last declared byte is given the byte 0: the chunk decodes,
  its four bytes are written, and the write ends with the negative-copy-size error, the
  chunk still in the buffer. A further write of the byte 0 decodes the chunk again and
  writes the same four bytes again. And a session on the 12 bytes of a marker whose chunk
  is complete writes nothing, although one write per completed chunk is the 8 bytes
  Attribut.
\<close>

theorem C10_emitted_again_counterexample:
  "Write appendSink heldState [] [0]
     = Return (6, Some NegativeCopySize, afterError, [[0x41, 0x41, 0x41, 0x41]])
   \<and> sessionOutput (dropCount (Write appendSink afterError [[0x41, 0x41, 0x41, 0x41]] [0]))
       = Return (None, [[0x41, 0x41, 0x41, 0x41], [0x41, 0x41, 0x41, 0x41]])
   \<and> validStream (1 # markerChunk) [markerChunk]
   \<and> flushedOutput [markerChunk] 11 = [[0x41, 0x74, 0x74, 0x72, 0x69, 0x62, 0x75, 0x74]]
   \<and> sessionOutput (WriteAll appendSink NewWriter [] [1 # markerChunk]) = Return (None, [])"
proof -
  have "flushedOutput [markerChunk] 11 = [[0x41, 0x74, 0x74, 0x72, 0x69, 0x62, 0x75, 0x74]]"
    using markerChunk_valid
    by (simp add: flushedOutput_def streamOutput_def) (simp add: markerChunk_def)
  with heldState_write afterError_write markerStream_valid markerStream_session
  show ?thesis by blast
qed

end
